theory Spec2Isabelle
  imports Main
begin

section \<open>Shared data\<close>

text \<open>
  A Go \<open>error\<close> is represented by the text its \<open>Error()\<close> method returns: the only
  thing the collector ever does with an error is to print that text or to compare it.
\<close>

datatype error = Error (message: string)

text \<open>
  A parsed \<open>*cronexpr.Expression\<close> is an opaque handle of the cronexpr library. The nil
  pointer is \<open>None\<close> in the fields that hold one.
\<close>

datatype Expression = Cron string

section \<open>scheduler.go: resolving the schedule groups\<close>

record Group =
  Method :: string
  IntervalName :: string
  interval :: "Expression option"

text \<open>
  The struct \<open>config\<close> of package scheduler. \<open>Intervals\<close> is a Go map read by key;
  \<open>Groups\<close> is a Go map that the code ranges over, so it is kept as the list of its
  entries in the order the range statement visits them (Go leaves that order open; the
  keys of a map are distinct).
\<close>

record scheduler_config =
  Intervals :: "string \<rightharpoonup> string"
  Groups :: "(string \<times> Group) list"

text \<open>\<open>config.Intervals[name]\<close>: a Go map read yields the zero value, the empty string,
  for a key that is absent.\<close>

definition lookup_interval :: "(string \<rightharpoonup> string) \<Rightarrow> string \<Rightarrow> string" where
  "lookup_interval ivs name = (case ivs name of None \<Rightarrow> [] | Some e \<Rightarrow> e)"

text \<open>
  The \<open>for key, group := range config.Groups\<close> loop of \<open>ReadSchedulerGroups\<close>. The
  first parameter is \<open>cronexpr.Parse\<close>, a library function; \<open>m\<close> is the map
  \<open>config.Groups\<close> as updated so far. The first parse error returns at once.
\<close>

fun resolve_groups ::
  "(string \<Rightarrow> error + Expression) \<Rightarrow> (string \<rightharpoonup> string) \<Rightarrow> (string \<times> Group) list \<Rightarrow>
   (string \<rightharpoonup> Group) \<Rightarrow> error + (string \<rightharpoonup> Group)" where
  "resolve_groups parse ivs [] m = Inr m"
| "resolve_groups parse ivs ((key, grp) # rest) m =
     (case parse (lookup_interval ivs (IntervalName grp)) of
        Inl err \<Rightarrow> Inl err
      | Inr expr \<Rightarrow> resolve_groups parse ivs rest (m(key \<mapsto> grp\<lparr>interval := Some expr\<rparr>)))"

text \<open>
  \<open>ReadSchedulerGroups\<close>. \<open>decode\<close> is \<open>toml.Decode\<close> into a fresh \<open>config\<close>. The
  named result \<open>groups\<close> is assigned only on the last line, so every error return
  carries the nil map: the error case holds no mapping at all.
\<close>

definition ReadSchedulerGroups ::
  "(string \<Rightarrow> error + scheduler_config) \<Rightarrow> (string \<Rightarrow> error + Expression) \<Rightarrow> string \<Rightarrow>
   error + (string \<rightharpoonup> Group)" where
  "ReadSchedulerGroups decode parse configData =
     (case decode configData of
        Inl err \<Rightarrow> Inl err
      | Inr cfg \<Rightarrow> resolve_groups parse (Intervals cfg) (Groups cfg) (map_of (Groups cfg)))"

text \<open>A group cannot be resolved when its interval name is not in the interval table or
  when the expression found there does not parse.\<close>

definition unresolvable ::
  "(string \<Rightarrow> error + Expression) \<Rightarrow> (string \<rightharpoonup> string) \<Rightarrow> Group \<Rightarrow> bool" where
  "unresolvable parse ivs g =
     (case ivs (IntervalName g) of None \<Rightarrow> True | Some e \<Rightarrow> isl (parse e))"

section \<open>Targets and their connections\<close>

text \<open>
  \<open>config.DatabaseConfig\<close> is declared in package config, outside the files at hand;
  the record has the fields this code reads or writes. It is a struct that is passed and
  stored by value.
\<close>

record DatabaseConfig =
  SectionName :: string
  DbSslMode :: string
  APIKey :: string
  APIURL :: string

text \<open>\<open>*sql.DB\<close>: a handle is the number of the connection attempt that opened it, and
  \<open>None\<close> is the nil pointer.\<close>

record configAndConnection =
  config :: DatabaseConfig
  connection :: "nat option"

datatype level = Verbose | Info | Err

text \<open>
  What the program has done to the outside so far: the lines handed to the logger
  (level, prefix of the logger, text), the configuration of every call of
  \<open>connectToDb\<close>, the handles \<open>sql.Open\<close> has returned and nothing has closed, and
  the arguments of every call of \<open>collectStatistics\<close>. The function that is called
  writes the record of its call itself, as its first step.
\<close>

record world =
  logged :: "(level \<times> string \<times> string) list"
  attempts :: "DatabaseConfig list"
  opened :: "nat list"
  collected :: "(DatabaseConfig \<times> nat option) list"

text \<open>What \<open>collectStatistics\<close> reads of the answer to its HTTP post: the status code,
  and the body as \<open>ioutil.ReadAll\<close> gives it.\<close>

record http_response =
  StatusCode :: nat
  Body :: "error + string"

text \<open>
  The collaborators outside the files at hand, as parameters. A collaborator that talks
  to the outside may answer differently each time, so it also gets the number of earlier
  calls. \<open>stats_JSON\<close> is the marshalled snapshot, whose content is the business of the
  packages dbstats, systemstats, logs and explain; \<open>fmt_Duration\<close> is the text that the
  verb \<open>%+v\<close> prints for a delay.
\<close>

record env =
  dryRun :: bool
  testRun :: bool
  DefaultConfig :: string
  toml_Decode :: "string \<Rightarrow> error + scheduler_config"
  cronexpr_Parse :: "string \<Rightarrow> error + Expression"
  cronexpr_Next :: "Expression \<Rightarrow> int \<Rightarrow> int"
  config_Read :: "nat \<Rightarrow> error + DatabaseConfig list"
  GetPqOpenString :: "DatabaseConfig \<Rightarrow> string"
  sql_Open :: "nat \<Rightarrow> string \<Rightarrow> error option"
  db_Ping :: "nat \<Rightarrow> string \<Rightarrow> error option"
  GetActivity :: "nat \<Rightarrow> nat option \<Rightarrow> error option"
  GetStatements :: "nat \<Rightarrow> nat option \<Rightarrow> error option"
  GetRelations :: "nat \<Rightarrow> nat option \<Rightarrow> error option"
  stats_JSON :: "nat \<Rightarrow> DatabaseConfig \<Rightarrow> string"
  fmt_Duration :: "int \<Rightarrow> string"
  http_PostForm :: "nat \<Rightarrow> DatabaseConfig \<Rightarrow> error + http_response"

text \<open>A logger is its prefix; \<open>WithPrefix\<close> gives the logger with that prefix.\<close>

definition Print :: "level \<Rightarrow> string \<Rightarrow> string \<Rightarrow> world \<Rightarrow> world" where
  "Print lv prefix text w = w\<lparr>logged := logged w @ [(lv, prefix, text)]\<rparr>"

definition dq :: string where
  "dq = [CHR 0x22]"

text \<open>\<open>connectToDb\<close>: \<open>sql.Open\<close>, then \<open>Ping\<close>; the handle is returned only when both
  succeed, and a handle whose ping fails is dropped as it is.\<close>

definition connectToDb ::
  "env \<Rightarrow> DatabaseConfig \<Rightarrow> string \<Rightarrow> world \<Rightarrow> (error + nat) \<times> world" where
  "connectToDb e cfg logger w =
     (let connectString = GetPqOpenString e cfg;
          k = length (attempts w);
          w1 = Print Verbose logger
                 (''sql.Open('' @ dq @ ''postgres'' @ dq @ '', '' @ dq @ connectString @ dq @ '')'') w;
          w2 = w1\<lparr>attempts := attempts w1 @ [cfg]\<rparr>
      in case sql_Open e k connectString of
           Some err \<Rightarrow> (Inl err, w2)
         | None \<Rightarrow>
             (let w3 = w2\<lparr>opened := opened w2 @ [k]\<rparr>
              in case db_Ping e k connectString of
                   Some err \<Rightarrow> (Inl err, w3)
                 | None \<Rightarrow> (Inr k, w3)))"

definition ssl_not_enabled :: string where
  "ssl_not_enabled = ''pq: SSL is not enabled on the server''"

text \<open>
  \<open>establishConnection\<close>. \<open>database\<close> takes its copy of \<open>config\<close> before the local
  \<open>config.DbSslMode\<close> is rewritten; \<open>database.connection, err = connectToDb(...)\<close>
  stores the nil handle when the attempt fails.
\<close>

definition establishConnection ::
  "env \<Rightarrow> DatabaseConfig \<Rightarrow> string \<Rightarrow> world \<Rightarrow> configAndConnection \<times> error option \<times> world" where
  "establishConnection e cfg logger w =
     (let database = \<lparr>config = cfg, connection = None\<rparr>;
          requestedSslMode = DbSslMode cfg;
          cfg1 = (if requestedSslMode = ''prefer'' then cfg\<lparr>DbSslMode := ''require''\<rparr> else cfg)
      in case connectToDb e cfg1 logger w of
           (Inr db, w1) \<Rightarrow> (database\<lparr>connection := Some db\<rparr>, None, w1)
         | (Inl err, w1) \<Rightarrow>
             if message err = ssl_not_enabled \<and> requestedSslMode = ''prefer''
             then (case connectToDb e (cfg1\<lparr>DbSslMode := ''disable''\<rparr>) logger w1 of
                     (Inr db, w2) \<Rightarrow> (database\<lparr>connection := Some db\<rparr>, None, w2)
                   | (Inl err2, w2) \<Rightarrow> (database\<lparr>connection := None\<rparr>, Some err2, w2))
             else (database\<lparr>connection := None\<rparr>, Some err, w1))"

text \<open>What \<open>establishConnection\<close> hands back for the result \<open>r\<close> of a connection
  attempt.\<close>

definition returns :: "configAndConnection \<Rightarrow> error option \<Rightarrow> error + nat \<Rightarrow> bool" where
  "returns database err r =
     (case r of
        Inl x \<Rightarrow> err = Some x \<and> connection database = None
      | Inr db \<Rightarrow> err = None \<and> connection database = Some db)"

text \<open>The loop of \<open>run\<close> over \<open>databaseConfigs\<close>; \<open>databases\<close> is the slice built so
  far.\<close>

fun establish_targets ::
  "env \<Rightarrow> DatabaseConfig list \<Rightarrow> configAndConnection list \<Rightarrow> world \<Rightarrow>
   configAndConnection list \<times> world" where
  "establish_targets e [] databases w = (databases, w)"
| "establish_targets e (cfg # rest) databases w =
     (case establishConnection e cfg (SectionName cfg) w of
        (database, Some err, w1) \<Rightarrow>
          establish_targets e rest databases
            (Print Err (SectionName cfg) (''Error: Failed to connect to database: '' @ message err) w1)
      | (database, None, w1) \<Rightarrow> establish_targets e rest (databases @ [database]) w1)"

text \<open>
  \<open>collectStatistics\<close>: the three queries, each of which may fail and end the
  collection; then the dry run prints the snapshot, and otherwise the snapshot is posted,
  the body of the answer is read and the status code is checked. The call records itself
  with its target; \<open>k\<close> is the number of earlier calls.
\<close>

definition collectStatistics ::
  "env \<Rightarrow> DatabaseConfig \<Rightarrow> nat option \<Rightarrow> bool \<Rightarrow> string \<Rightarrow> world \<Rightarrow> error option \<times> world" where
  "collectStatistics e cfg db submitCollectedData logger w0 =
     (let k = length (collected w0);
          w = w0\<lparr>collected := collected w0 @ [(cfg, db)]\<rparr>
      in
     (case GetActivity e k db of
        Some err \<Rightarrow> (Some err, w)
      | None \<Rightarrow>
     (case GetStatements e k db of
        Some err \<Rightarrow> (Some err, w)
      | None \<Rightarrow>
     (case GetRelations e k db of
        Some err \<Rightarrow> (Some err, w)
      | None \<Rightarrow>
          if \<not> submitCollectedData
          then (None, Print Info logger
                        (''Dry run - JSON data that would have been sent:'' @ [CHR 0x0A] @ stats_JSON e k cfg) w)
          else (case http_PostForm e k cfg of
                  Inl err \<Rightarrow> (Some err, w)
                | Inr resp \<Rightarrow>
                    (case Body resp of
                       Inl err \<Rightarrow> (Some err, w)
                     | Inr body \<Rightarrow>
                         if StatusCode resp \<noteq> 200
                         then (Some (Error (''Error when submitting: '' @ body @ [CHR 0x0A])), w)
                         else (None, Print Info logger ''Submitted snapshot successfully'' w)))))))"

text \<open>\<open>collectAllDatabases\<close>: for every record of the slice, in order, the call of
  \<open>collectStatistics\<close> with the logger prefixed by the section name, and the error line
  when the call fails.\<close>

fun collectAllDatabases ::
  "env \<Rightarrow> configAndConnection list \<Rightarrow> bool \<Rightarrow> world \<Rightarrow> world" where
  "collectAllDatabases e [] submitCollectedData w = w"
| "collectAllDatabases e (database # rest) submitCollectedData w =
     (case collectStatistics e (config database) (connection database) submitCollectedData
             (SectionName (config database)) w of
        (Some err, w1) \<Rightarrow>
          collectAllDatabases e rest submitCollectedData
            (Print Err (SectionName (config database)) (message err) w1)
      | (None, w1) \<Rightarrow> collectAllDatabases e rest submitCollectedData w1)"

text \<open>The outcome of \<open>establishConnection\<close> on every configured target, in configuration
  order, each in the world its predecessors have left.\<close>

fun establish_outcomes ::
  "env \<Rightarrow> DatabaseConfig list \<Rightarrow> world \<Rightarrow> (configAndConnection \<times> error option) list" where
  "establish_outcomes e [] w = []"
| "establish_outcomes e (cfg # rest) w =
     (case establishConnection e cfg (SectionName cfg) w of
        (database, r, w1) \<Rightarrow>
          (database, r) #
          establish_outcomes e rest
            (case r of
               None \<Rightarrow> w1
             | Some err \<Rightarrow>
                 Print Err (SectionName cfg) (''Error: Failed to connect to database: '' @ message err) w1))"

text \<open>The outcome of \<open>collectStatistics\<close> on every record of the slice, in order, each in
  the world its predecessors have left.\<close>

fun collect_outcomes ::
  "env \<Rightarrow> configAndConnection list \<Rightarrow> bool \<Rightarrow> world \<Rightarrow> (configAndConnection \<times> error option) list" where
  "collect_outcomes e [] submitCollectedData w = []"
| "collect_outcomes e (database # rest) submitCollectedData w =
     (case collectStatistics e (config database) (connection database) submitCollectedData
             (SectionName (config database)) w of
        (r, w1) \<Rightarrow>
          (database, r) #
          collect_outcomes e rest submitCollectedData
            (case r of
               None \<Rightarrow> w1
             | Some err \<Rightarrow> Print Err (SectionName (config database)) (message err) w1))"

text \<open>
  The level and the prefix of the one line that the collection of a target leaves in the
  log: the line of \<open>collectStatistics\<close> when it succeeds, the error line otherwise.
\<close>

definition outcome_line :: "configAndConnection \<times> error option \<Rightarrow> level \<times> string" where
  "outcome_line dr =
     (case snd dr of None \<Rightarrow> Info | Some err \<Rightarrow> Err, SectionName (config (fst dr)))"

definition failure_logged ::
  "(level \<times> string \<times> string) list \<Rightarrow> configAndConnection \<times> error option \<Rightarrow> bool" where
  "failure_logged ls dr =
     (case snd dr of
        None \<Rightarrow> True
      | Some err \<Rightarrow> (Err, SectionName (config (fst dr)), message err) \<in> set ls)"

text \<open>
  A pass over the records \<open>ds\<close> that leads from the world \<open>w\<close> to the world \<open>w'\<close>
  has collected every target once: the calls of \<open>collectStatistics\<close> made in between
  are exactly one call for each record, in order; the log has grown by exactly one line
  for each record, in order, with the level its outcome asks for; and the line of a
  failure carries the error under the section name of its target.
\<close>

definition pass_collects ::
  "env \<Rightarrow> configAndConnection list \<Rightarrow> bool \<Rightarrow> world \<Rightarrow> world \<Rightarrow> bool" where
  "pass_collects e ds submit w w' =
     (collected w' = collected w @ map (\<lambda>d. (config d, connection d)) ds \<and>
      map fst (collect_outcomes e ds submit w) = ds \<and>
      take (length (logged w)) (logged w') = logged w \<and>
      map (\<lambda>l. (fst l, fst (snd l))) (drop (length (logged w)) (logged w')) =
        map outcome_line (collect_outcomes e ds submit w) \<and>
      list_all (failure_logged (drop (length (logged w)) (logged w'))) (collect_outcomes e ds submit w))"

section \<open>The daemon: \<open>main\<close>, \<open>run\<close> and the loop of \<open>Group.Schedule\<close>\<close>

text \<open>
  \<open>run\<close> up to the call of \<open>Schedule\<close>. The result \<open>None\<close> is the nil channel;
  otherwise it is the receiver and the captured \<open>databases\<close> of the goroutine that
  \<open>Schedule\<close> starts. \<open>k\<close> counts the earlier calls of \<open>run\<close>. The base logger has
  the empty prefix. \<open>schedulerGroups["stats"]\<close> is a Go map read: the zero \<open>Group\<close>,
  whose \<open>interval\<close> is nil, when there is no such group.
\<close>

definition effective_testRun :: "env \<Rightarrow> bool" where
  "effective_testRun e = (if dryRun e then True else testRun e)"

definition submitCollectedData :: "env \<Rightarrow> bool" where
  "submitCollectedData e = (if dryRun e then False else True)"

definition zero_Group :: Group where
  "zero_Group = \<lparr>Method = [], IntervalName = [], interval = None\<rparr>"

definition run ::
  "env \<Rightarrow> nat \<Rightarrow> world \<Rightarrow> (Group \<times> configAndConnection list) option \<times> world" where
  "run e k w =
     (case ReadSchedulerGroups (toml_Decode e) (cronexpr_Parse e) (DefaultConfig e) of
        Inl err \<Rightarrow>
          (None, Print Err [] ''Error: Could not read scheduler groups, awaiting SIGHUP or process kill'' w)
      | Inr schedulerGroups \<Rightarrow>
          (case config_Read e k of
             Inl err \<Rightarrow>
               (None, Print Err [] ''Error: Could not read configuration, awaiting SIGHUP or process kill'' w)
           | Inr databaseConfigs \<Rightarrow>
               (case establish_targets e databaseConfigs [] w of
                  (databases, w1) \<Rightarrow>
                    if effective_testRun e
                    then (None, collectAllDatabases e databases (submitCollectedData e) w1)
                    else (Some (case schedulerGroups ''stats'' of None \<Rightarrow> zero_Group | Some g \<Rightarrow> g,
                                databases), w1))))"

datatype signal = SIGINT | SIGTERM | SIGHUP

text \<open>
  Where \<open>main\<close> stands, from the label \<open>ReadConfigAndRun\<close> on: about to call \<open>run\<close>;
  blocked in \<open>s := <-sigs\<close>; blocked in \<open>stop <- true\<close> with the signal it holds; past
  the send; in \<open>wg.Wait()\<close>; returned. The process is also gone when a signal that is no
  longer caught kills it, or when a goroutine panics.
\<close>

datatype main_pc =
  AtRun | AwaitSignal | SendStop signal | AfterStop signal | Waiting | Exited | Killed | Crashed

text \<open>
  Where the goroutine of \<open>Schedule\<close> stands: at the head of the \<open>for\<close>; after
  \<open>group.interval.Next(time.Now())\<close> with that time; after \<open>.Sub(time.Now())\<close> with
  the delay; suspended in the \<open>select\<close> with the time the timer is due; in \<open>runner()\<close>
  before \<open>wg.Add(1)\<close>, before \<open>collectAllDatabases\<close> and before \<open>wg.Done()\<close>;
  returned.
\<close>

datatype loop_pc =
  Top | GotNext int | GotDelay int | Select int | Fired | Collecting | Finishing | Done

text \<open>
  One goroutine of \<open>Schedule\<close> with what its closures hold: the receiver \<open>group\<close>, the
  slice \<open>databases\<close> and the address of the \<open>wg\<close> that \<open>runner\<close> captured. \<open>started\<close>
  and \<open>finished\<close> count the calls of \<open>runner\<close> and its returns.
\<close>

record loop =
  pc :: loop_pc
  loop_group :: Group
  loop_databases :: "configAndConnection list"
  loop_wg :: nat
  started :: nat
  finished :: nat

text \<open>
  The process. \<open>now\<close> is the clock in instants. \<open>sigs\<close> is the channel of capacity 1;
  \<open>notifying\<close> holds from \<open>signal.Notify\<close> to \<open>signal.Stop\<close>. \<open>stop\<close> is the variable
  of \<open>main\<close>: a channel is named by the position of its goroutine in \<open>loops\<close>. \<open>wgs\<close>
  is the store of \<open>sync.WaitGroup\<close> counters: address \<open>0\<close> is the \<open>wg\<close> of \<open>main\<close>;
  \<open>run\<close> takes its \<open>wg\<close> by value, so every call of \<open>run\<close> gets a fresh address that
  starts as a copy.
\<close>

record state =
  now :: int
  mainpc :: main_pc
  sigs :: "signal option"
  notifying :: bool
  stop :: nat
  loops :: "loop list"
  wgs :: "int list"
  outside :: world

definition main_wg :: nat where
  "main_wg = 0"

text \<open>The state in which \<open>main\<close> first arrives at the label: the flags are parsed,
  \<open>signal.Notify\<close> is in force, \<open>wg\<close> is the zero \<open>WaitGroup\<close>, and nothing has
  been logged, opened or collected.\<close>

definition init :: state where
  "init = \<lparr>now = 0, mainpc = AtRun, sigs = None, notifying = True, stop = 0, loops = [],
           wgs = [0], outside = \<lparr>logged = [], attempts = [], opened = [], collected = []\<rparr>\<rparr>"

definition alive :: "state \<Rightarrow> bool" where
  "alive s = (mainpc s \<noteq> Exited \<and> mainpc s \<noteq> Killed \<and> mainpc s \<noteq> Crashed)"

text \<open>\<open>stop := run(wg, ...)\<close> and \<open>if stop == nil { return }\<close>.\<close>

definition do_run :: "env \<Rightarrow> state \<Rightarrow> state" where
  "do_run e s =
     (let a = length (wgs s);
          s1 = s\<lparr>wgs := wgs s @ [wgs s ! main_wg]\<rparr>
      in case run e (length (loops s)) (outside s) of
           (None, w) \<Rightarrow> s1\<lparr>outside := w, mainpc := Exited\<rparr>
         | (Some (g, databases), w) \<Rightarrow>
             s1\<lparr>outside := w,
                loops := loops s @ [\<lparr>pc = Top, loop_group = g, loop_databases = databases,
                                      loop_wg = a, started = 0, finished = 0\<rparr>],
                stop := length (loops s),
                mainpc := AwaitSignal\<rparr>)"

text \<open>The next statement of \<open>main\<close>; \<open>None\<close> when \<open>main\<close> is blocked or has returned.
  The send on \<open>stop\<close> completes only in \<open>handoff\<close>.\<close>

definition main_step :: "env \<Rightarrow> state \<Rightarrow> state option" where
  "main_step e s =
     (case mainpc s of
        AtRun \<Rightarrow> Some (do_run e s)
      | AwaitSignal \<Rightarrow>
          (case sigs s of
             None \<Rightarrow> None
           | Some sg \<Rightarrow> Some (s\<lparr>sigs := None, mainpc := SendStop sg\<rparr>))
      | SendStop sg \<Rightarrow> None
      | AfterStop sg \<Rightarrow>
          if sg = SIGHUP
          then Some (s\<lparr>outside := Print Info [] ''Reloading configuration...'' (outside s),
                       mainpc := AtRun\<rparr>)
          else Some (s\<lparr>notifying := False,
                       outside := Print Info [] ''Exiting...'' (outside s),
                       mainpc := Waiting\<rparr>)
      | Waiting \<Rightarrow> if wgs s ! main_wg = 0 then Some (s\<lparr>mainpc := Exited\<rparr>) else None
      | Exited \<Rightarrow> None
      | Killed \<Rightarrow> None
      | Crashed \<Rightarrow> None)"

text \<open>
  The next step of goroutine \<open>h\<close>. Suspended in the \<open>select\<close>, it takes the timer case
  once the timer is due; the case \<open><-stop\<close> is \<open>handoff\<close>. A nil \<open>group.interval\<close>
  panics.
\<close>

definition set_loop :: "nat \<Rightarrow> loop \<Rightarrow> state \<Rightarrow> state" where
  "set_loop h l s = s\<lparr>loops := (loops s)[h := l]\<rparr>"

definition loop_step :: "env \<Rightarrow> nat \<Rightarrow> state \<Rightarrow> state option" where
  "loop_step e h s =
     (if h < length (loops s) then
        (let l = loops s ! h in
         case pc l of
           Top \<Rightarrow>
             (case interval (loop_group l) of
                None \<Rightarrow> Some (s\<lparr>mainpc := Crashed\<rparr>)
              | Some x \<Rightarrow> Some (set_loop h (l\<lparr>pc := GotNext (cronexpr_Next e x (now s))\<rparr>) s))
         | GotNext fire \<Rightarrow> Some (set_loop h (l\<lparr>pc := GotDelay (fire - now s)\<rparr>) s)
         | GotDelay delay \<Rightarrow>
             Some (set_loop h (l\<lparr>pc := Select (now s + delay)\<rparr>)
                     (s\<lparr>outside := Print Verbose []
                          (''Scheduled next run for collection of all databases in '' @
                           fmt_Duration e delay) (outside s)\<rparr>))
         | Select due \<Rightarrow>
             if due \<le> now s
             then Some (set_loop h (l\<lparr>pc := Fired, started := started l + 1\<rparr>) s)
             else None
         | Fired \<Rightarrow>
             Some (set_loop h (l\<lparr>pc := Collecting\<rparr>) (s\<lparr>wgs := (wgs s)[loop_wg l := wgs s ! loop_wg l + 1]\<rparr>))
         | Collecting \<Rightarrow>
             Some (set_loop h (l\<lparr>pc := Finishing\<rparr>)
                     (s\<lparr>outside := collectAllDatabases e (loop_databases l) (submitCollectedData e) (outside s)\<rparr>))
         | Finishing \<Rightarrow>
             Some (set_loop h (l\<lparr>pc := Top, finished := finished l + 1\<rparr>)
                     (s\<lparr>wgs := (wgs s)[loop_wg l := wgs s ! loop_wg l - 1]\<rparr>))
         | Done \<Rightarrow> None)
      else None)"

text \<open>
  A send \<open>stop <- true\<close> on the channel of goroutine \<open>h\<close>, by whoever holds the
  channel. The channel is unbuffered: the send completes exactly when that goroutine is
  suspended in its \<open>select\<close> and takes the case \<open><-stop\<close>, and the goroutine then
  returns. \<open>None\<close>: the send cannot complete in this state, and the sender stays blocked.
\<close>

definition in_select :: "loop_pc \<Rightarrow> bool" where
  "in_select p = (case p of Select due \<Rightarrow> True | _ \<Rightarrow> False)"

definition send_stop :: "nat \<Rightarrow> state \<Rightarrow> state option" where
  "send_stop h s =
     (if h < length (loops s) \<and> in_select (pc (loops s ! h))
      then Some (set_loop h ((loops s ! h)\<lparr>pc := Done\<rparr>) s)
      else None)"

text \<open>The send of \<open>main\<close> on its \<open>stop\<close> completes.\<close>

definition handoff :: "state \<Rightarrow> state option" where
  "handoff s =
     (case mainpc s of
        SendStop sg \<Rightarrow>
          (case send_stop (stop s) s of
             None \<Rightarrow> None
           | Some s1 \<Rightarrow> Some (s1\<lparr>mainpc := AfterStop sg\<rparr>))
      | _ \<Rightarrow> None)"

text \<open>
  A signal from outside. While \<open>signal.Notify\<close> is in force it is put into \<open>sigs\<close>
  without blocking, and dropped when the channel is full; after \<open>signal.Stop\<close> each of
  the three signals has its default action again and ends the process.
\<close>

definition deliver :: "signal \<Rightarrow> state \<Rightarrow> state option" where
  "deliver sg s =
     (if notifying s
      then Some (s\<lparr>sigs := (case sigs s of None \<Rightarrow> Some sg | Some old \<Rightarrow> Some old)\<rparr>)
      else Some (s\<lparr>mainpc := Killed\<rparr>))"

text \<open>
  The clock moves on by one instant. A send that finds its receiver suspended in the
  \<open>select\<close> is completed by the sender itself, without waiting; so no time passes
  while the handoff is possible. (The timer case may still be taken instead when the
  timer is due: \<open>select\<close> chooses among the cases that are ready.)
\<close>

definition tick :: "state \<Rightarrow> state option" where
  "tick s = (case handoff s of None \<Rightarrow> Some (s\<lparr>now := now s + 1\<rparr>) | Some s1 \<Rightarrow> None)"

datatype event = Tick | Deliver signal | MainStep | LoopStep nat | Handoff

text \<open>One step of the process; \<open>None\<close> when the event cannot happen in this state. A
  process that is gone does nothing.\<close>

definition step :: "env \<Rightarrow> event \<Rightarrow> state \<Rightarrow> state option" where
  "step e ev s =
     (if alive s then
        (case ev of
           Tick \<Rightarrow> tick s
         | Deliver sg \<Rightarrow> deliver sg s
         | MainStep \<Rightarrow> main_step e s
         | LoopStep h \<Rightarrow> loop_step e h s
         | Handoff \<Rightarrow> handoff s)
      else None)"

fun run_events :: "env \<Rightarrow> event list \<Rightarrow> state \<Rightarrow> state option" where
  "run_events e [] s = Some s"
| "run_events e (ev # evs) s =
     (case step e ev s of None \<Rightarrow> None | Some s1 \<Rightarrow> run_events e evs s1)"

text \<open>A call of \<open>runner\<close> is in flight on a goroutine from the timer case to the return
  of \<open>runner\<close>.\<close>

definition in_runner :: "loop_pc \<Rightarrow> bool" where
  "in_runner p = (p = Fired \<or> p = Collecting \<or> p = Finishing)"

section \<open>Properties of the states of the daemon\<close>

text \<open>\<open>main\<close> is at a place where no goroutine of \<open>Schedule\<close> is left running: before a
  call of \<open>run\<close>, past its send on \<open>stop\<close>, or returned.\<close>

definition quiet_main :: "main_pc \<Rightarrow> bool" where
  "quiet_main p =
     (case p of
        AtRun \<Rightarrow> True | AfterStop sg \<Rightarrow> True | Waiting \<Rightarrow> True | Exited \<Rightarrow> True
      | _ \<Rightarrow> False)"

text \<open>The counter of the \<open>wg\<close> of \<open>main\<close> is zero, and no goroutine holds its
  address.\<close>

definition counters_ok :: "state \<Rightarrow> bool" where
  "counters_ok s =
     (wgs s \<noteq> [] \<and> wgs s ! main_wg = 0 \<and> (\<forall>h < length (loops s). 0 < loop_wg (loops s ! h)))"

text \<open>On every goroutine the calls of \<open>runner\<close> are its returns, plus one while a call
  is in flight.\<close>

definition calls_ok :: "state \<Rightarrow> bool" where
  "calls_ok s =
     (\<forall>h < length (loops s).
        started (loops s ! h) = finished (loops s ! h) + (if in_runner (pc (loops s ! h)) then 1 else 0))"

text \<open>Every goroutine but the one that \<open>stop\<close> names has returned, and that one too
  when \<open>main\<close> is at such a place.\<close>

definition one_live :: "state \<Rightarrow> bool" where
  "one_live s =
     ((\<forall>h < length (loops s). h \<noteq> stop s \<longrightarrow> pc (loops s ! h) = Done) \<and>
      (quiet_main (mainpc s) \<longrightarrow> (\<forall>h < length (loops s). pc (loops s ! h) = Done)))"

text \<open>
  Goroutine \<open>h\<close>, with \<open>n\<close> calls of \<open>runner\<close> so far, is being stopped before its
  timer is due at \<open>due\<close>: it has returned, or it is still suspended in that \<open>select\<close>
  while \<open>main\<close> is blocked in the send on its channel and the clock is before \<open>due\<close>
  (or the process is gone).
\<close>

definition in_send :: "main_pc \<Rightarrow> bool" where
  "in_send p = (case p of SendStop sg \<Rightarrow> True | _ \<Rightarrow> False)"

definition stopping :: "nat \<Rightarrow> nat \<Rightarrow> int \<Rightarrow> state \<Rightarrow> bool" where
  "stopping h n due s =
     (h < length (loops s) \<and> started (loops s ! h) = n \<and>
      (pc (loops s ! h) = Done \<or>
       (pc (loops s ! h) = Select due \<and>
        (\<not> alive s \<or> (in_send (mainpc s) \<and> stop s = h \<and> now s < due)))))"

text \<open>Every connection held by these records is among the handles that are open; and so
  for the records of every goroutine, returned or not.\<close>

definition connections_open :: "configAndConnection list \<Rightarrow> world \<Rightarrow> bool" where
  "connections_open ds w =
     (\<forall>d \<in> set ds. case connection d of None \<Rightarrow> True | Some c \<Rightarrow> c \<in> set (opened w))"

definition generations_open :: "state \<Rightarrow> bool" where
  "generations_open s =
     (\<forall>h < length (loops s). connections_open (loop_databases (loops s ! h)) (outside s))"

text \<open>What a state shows: the clock, the places of \<open>main\<close> and of the goroutines and their
  calls of \<open>runner\<close>; the \<open>WaitGroup\<close> addresses and counters; the connections of each
  generation and the open handles.\<close>

definition places :: "state \<Rightarrow> int \<times> main_pc \<times> loop_pc list \<times> nat list" where
  "places s = (now s, mainpc s, map pc (loops s), map started (loops s))"

definition counters :: "state \<Rightarrow> nat list \<times> int list \<times> int" where
  "counters s = (map loop_wg (loops s), wgs s, wgs s ! main_wg)"

definition handles :: "state \<Rightarrow> nat option list list \<times> nat list" where
  "handles s = (map (map connection \<circ> loop_databases) (loops s), opened (outside s))"

definition log_lines :: "state \<Rightarrow> (level \<times> string \<times> string) list" where
  "log_lines s = logged (outside s)"

section \<open>An example installation\<close>

text \<open>
  One schedule group \<open>stats\<close> and three targets. The server of \<open>pg1\<close> has no SSL,
  \<open>pg2\<close> refuses every connection, \<open>pg3\<close> is fine; the first query on connection 1
  times out. An instant is five minutes, so the expression fires at every even instant.
\<close>

definition example_parse :: "string \<Rightarrow> error + Expression" where
  "example_parse s = (if s = ''*/10 * * * *'' then Inr (Cron s) else Inl (Error ''missing field(s)''))"

definition stats_group :: "string \<Rightarrow> Group" where
  "stats_group name = \<lparr>Method = ''stats'', IntervalName = name, interval = None\<rparr>"

definition example_decode :: "string \<Rightarrow> error + scheduler_config" where
  "example_decode s =
     (if s = ''ok'' then
        Inr \<lparr>Intervals = [''10min'' \<mapsto> ''*/10 * * * *''], Groups = [(''stats'', stats_group ''10min'')]\<rparr>
      else if s = ''dangling'' then
        Inr \<lparr>Intervals = [''10min'' \<mapsto> ''*/10 * * * *''], Groups = [(''stats'', stats_group ''5min'')]\<rparr>
      else Inl (Error ''toml: syntax error''))"

definition target :: "string \<Rightarrow> string \<Rightarrow> DatabaseConfig" where
  "target name mode = \<lparr>SectionName = name, DbSslMode = mode, APIKey = ''key'', APIURL = ''url''\<rparr>"

definition example_env :: env where
  "example_env =
     \<lparr>dryRun = False, testRun = False, DefaultConfig = ''ok'',
      toml_Decode = example_decode, cronexpr_Parse = example_parse,
      cronexpr_Next = (\<lambda>x t. (t div 2 + 1) * 2),
      config_Read = (\<lambda>k. Inr [target ''pg1'' ''prefer'', target ''pg2'' ''disable'', target ''pg3'' ''require'']),
      GetPqOpenString = (\<lambda>c. SectionName c @ '' sslmode='' @ DbSslMode c),
      sql_Open = (\<lambda>k s. None),
      db_Ping = (\<lambda>k s. if s = ''pg1 sslmode=require'' then Some (Error ssl_not_enabled)
                         else if s = ''pg2 sslmode=disable'' then Some (Error ''connection refused'')
                         else None),
      GetActivity = (\<lambda>k db. if db = Some 1 then Some (Error ''pq: canceling statement due to timeout'') else None),
      GetStatements = (\<lambda>k db. None),
      GetRelations = (\<lambda>k db. None),
      stats_JSON = (\<lambda>k c. ''{}''),
      fmt_Duration = (\<lambda>d. if d = 2 then ''10m0s'' else if d = 0 then ''0s'' else ''?''),
      http_PostForm = (\<lambda>k c. Inr \<lparr>StatusCode = 200, Body = Inr ''OK''\<rparr>)\<rparr>"

definition empty_world :: world where
  "empty_world = \<lparr>logged = [], attempts = [], opened = [], collected = []\<rparr>"

text \<open>
  Runs of the example. \<open>startup\<close>: \<open>main\<close> calls \<open>run\<close> and the goroutine suspends in
  its \<open>select\<close>, the timer due at instant 2. \<open>first_pass\<close>: the timer fires and
  \<open>runner\<close> has done \<open>wg.Add(1)\<close>. \<open>terminate\<close>: SIGTERM arrives at instant 0 and
  \<open>main\<close> reaches its send; \<open>cancelled\<close>: the send has completed. \<open>reload\<close>: SIGHUP,
  and \<open>run\<close> has been called again. \<open>tie\<close>: SIGTERM arrives at instant 2, when the
  timer is due. \<open>late_select\<close>: SIGTERM arrives at instant 0, after the goroutine has
  computed the fire time 2 and before it enters the \<open>select\<close>, which it does at instant 2.
  In \<open>unreadable_env\<close> the configuration file cannot be read; in \<open>dangling_env\<close> the
  group names an interval that does not exist.
\<close>

definition startup :: "event list" where
  "startup = [MainStep, LoopStep 0, LoopStep 0, LoopStep 0]"

definition first_pass :: "event list" where
  "first_pass = startup @ [Tick, Tick, LoopStep 0, LoopStep 0]"

definition terminate :: "event list" where
  "terminate = startup @ [Deliver SIGTERM, MainStep]"

definition cancelled :: "event list" where
  "cancelled = terminate @ [Handoff]"

definition reload :: "event list" where
  "reload = startup @ [Deliver SIGHUP, MainStep, Handoff, MainStep, MainStep]"

definition tie :: "event list" where
  "tie = startup @ [Tick, Tick, Deliver SIGTERM, MainStep]"

definition late_select :: "event list" where
  "late_select = [MainStep, LoopStep 0, Deliver SIGTERM, MainStep, Tick, Tick, LoopStep 0, LoopStep 0]"

definition unreadable_env :: env where
  "unreadable_env = example_env\<lparr>config_Read := (\<lambda>k. Inl (Error ''open: no such file or directory''))\<rparr>"

definition dangling_env :: env where
  "dangling_env = example_env\<lparr>DefaultConfig := ''dangling''\<rparr>"

section \<open>Unfolding the example\<close>

lemmas example_defs = example_env_def empty_world_def target_def connectToDb_def Print_def
  ssl_not_enabled_def dq_def Let_def

section \<open>Resolving schedule groups fails fast\<close>

lemma unresolvable_iff:
  "isl (parse []) \<Longrightarrow> unresolvable parse ivs g = isl (parse (lookup_interval ivs (IntervalName g)))"
  by (simp add: unresolvable_def lookup_interval_def split: option.splits)

lemma resolve_groups_fails:
  "\<exists>kg \<in> set gs. isl (parse (lookup_interval ivs (IntervalName (snd kg)))) \<Longrightarrow>
   isl (resolve_groups parse ivs gs m)"
proof (induction gs arbitrary: m)
  case Nil
  then show ?case by simp
next
  case (Cons kg gs)
  obtain k g where kg: "kg = (k, g)" by (cases kg)
  show ?case
  proof (cases "parse (lookup_interval ivs (IntervalName g))")
    case (Inl err)
    then show ?thesis by (simp add: kg)
  next
    case (Inr expr)
    with Cons.prems kg have "\<exists>kg \<in> set gs. isl (parse (lookup_interval ivs (IntervalName (snd kg))))"
      by auto
    from Cons.IH [OF this] show ?thesis by (simp add: kg Inr)
  qed
qed

lemma resolve_groups_succeeds:
  "\<forall>kg \<in> set gs. \<not> isl (parse (lookup_interval ivs (IntervalName (snd kg)))) \<Longrightarrow>
   distinct (map fst gs) \<Longrightarrow>
   \<exists>m'. resolve_groups parse ivs gs m = Inr m' \<and>
        (\<forall>k. k \<notin> fst ` set gs \<longrightarrow> m' k = m k) \<and>
        (\<forall>kg \<in> set gs. m' (fst kg) =
           Some ((snd kg)\<lparr>interval := Some (projr (parse (lookup_interval ivs (IntervalName (snd kg)))))\<rparr>))"
proof (induction gs arbitrary: m)
  case Nil
  then show ?case by simp
next
  case (Cons kg gs)
  obtain k g where kg: "kg = (k, g)" by (cases kg)
  from Cons.prems kg obtain expr where p: "parse (lookup_interval ivs (IntervalName g)) = Inr expr"
    by (cases "parse (lookup_interval ivs (IntervalName g))") auto
  let ?m1 = "m(k \<mapsto> g\<lparr>interval := Some expr\<rparr>)"
  from Cons.prems have rest: "\<forall>kg \<in> set gs. \<not> isl (parse (lookup_interval ivs (IntervalName (snd kg))))"
    and dist: "distinct (map fst gs)" and fresh: "k \<notin> fst ` set gs"
    by (auto simp: kg)
  from Cons.IH [OF rest dist, of ?m1] obtain m' where
    r: "resolve_groups parse ivs gs ?m1 = Inr m'" and
    out: "\<forall>k'. k' \<notin> fst ` set gs \<longrightarrow> m' k' = ?m1 k'" and
    inn: "\<forall>kg \<in> set gs. m' (fst kg) =
           Some ((snd kg)\<lparr>interval := Some (projr (parse (lookup_interval ivs (IntervalName (snd kg)))))\<rparr>)"
    by blast
  have "resolve_groups parse ivs (kg # gs) m = Inr m'" by (simp add: kg p r)
  moreover have "\<forall>k'. k' \<notin> fst ` set (kg # gs) \<longrightarrow> m' k' = m k'"
    using out by (auto simp: kg)
  moreover have "m' k = Some (g\<lparr>interval := Some expr\<rparr>)" using out fresh by simp
  ultimately show ?case using inn by (auto simp: kg p)
qed

text \<open>
  C7. For every interval table and group table that the configuration decodes to: if some
  group names an interval that is not in the interval table, or the expression of some
  group does not parse, \<open>ReadSchedulerGroups\<close> returns an error and no mapping at all;
  otherwise it returns a mapping whose keys are exactly the groups, each group with its
  parsed expression. An absent interval name is looked up as the empty string, which the
  cron parser rejects (\<open>cronexpr.Parse\<close> answers "missing field(s)"): that property
  of the library is the third hypothesis.
\<close>

theorem ReadSchedulerGroups_fail_fast:
  assumes dec: "decode configData = Inr cfg"
    and dist: "distinct (map fst (Groups cfg))"
    and empty_rejected: "isl (parse [])"
  shows "if \<exists>kg \<in> set (Groups cfg). unresolvable parse (Intervals cfg) (snd kg)
         then isl (ReadSchedulerGroups decode parse configData)
         else \<exists>m. ReadSchedulerGroups decode parse configData = Inr m \<and>
                dom m = fst ` set (Groups cfg) \<and>
                (\<forall>kg \<in> set (Groups cfg). \<exists>e x.
                    Intervals cfg (IntervalName (snd kg)) = Some e \<and> parse e = Inr x \<and>
                    m (fst kg) = Some ((snd kg)\<lparr>interval := Some x\<rparr>))"
proof (cases "\<exists>kg \<in> set (Groups cfg). unresolvable parse (Intervals cfg) (snd kg)")
  case True
  then have "\<exists>kg \<in> set (Groups cfg). isl (parse (lookup_interval (Intervals cfg) (IntervalName (snd kg))))"
    by (simp add: unresolvable_iff [where parse = parse, OF empty_rejected])
  from resolve_groups_fails [OF this] True show ?thesis
    by (simp add: ReadSchedulerGroups_def dec)
next
  case False
  then have ok: "\<forall>kg \<in> set (Groups cfg). \<not> isl (parse (lookup_interval (Intervals cfg) (IntervalName (snd kg))))"
    by (simp add: unresolvable_iff [where parse = parse, OF empty_rejected])
  from resolve_groups_succeeds [OF ok dist, of "map_of (Groups cfg)"] obtain m where
    r: "resolve_groups parse (Intervals cfg) (Groups cfg) (map_of (Groups cfg)) = Inr m" and
    out: "\<forall>k. k \<notin> fst ` set (Groups cfg) \<longrightarrow> m k = map_of (Groups cfg) k" and
    inn: "\<forall>kg \<in> set (Groups cfg). m (fst kg) =
           Some ((snd kg)\<lparr>interval := Some (projr (parse (lookup_interval (Intervals cfg) (IntervalName (snd kg)))))\<rparr>)"
    by blast
  have d: "dom m = fst ` set (Groups cfg)"
  proof
    show "dom m \<subseteq> fst ` set (Groups cfg)"
    proof
      fix k assume "k \<in> dom m"
      show "k \<in> fst ` set (Groups cfg)"
      proof (rule ccontr)
        assume n: "k \<notin> fst ` set (Groups cfg)"
        then have "m k = map_of (Groups cfg) k" using out by simp
        also have "\<dots> = None" using n by (simp add: map_of_eq_None_iff)
        finally show False using \<open>k \<in> dom m\<close> by auto
      qed
    qed
    show "fst ` set (Groups cfg) \<subseteq> dom m" using inn by auto
  qed
  have each: "\<exists>e x. Intervals cfg (IntervalName (snd kg)) = Some e \<and> parse e = Inr x \<and>
                    m (fst kg) = Some ((snd kg)\<lparr>interval := Some x\<rparr>)"
    if "kg \<in> set (Groups cfg)" for kg
  proof -
    from False that have nu: "\<not> unresolvable parse (Intervals cfg) (snd kg)" by blast
    then obtain e where e: "Intervals cfg (IntervalName (snd kg)) = Some e" and "\<not> isl (parse e)"
      by (auto simp: unresolvable_def split: option.splits)
    then obtain x where x: "parse e = Inr x" by (cases "parse e") auto
    from inn that e x have "m (fst kg) = Some ((snd kg)\<lparr>interval := Some x\<rparr>)"
      by (simp add: lookup_interval_def)
    with e x show ?thesis by blast
  qed
  from False r d each show ?thesis
    by (simp add: ReadSchedulerGroups_def dec)
qed

theorem ReadSchedulerGroups_fail_fast_witness:
  "isl (ReadSchedulerGroups example_decode example_parse ''dangling'') \<and>
   (\<exists>m. ReadSchedulerGroups example_decode example_parse ''ok'' = Inr m \<and>
        dom m = {''stats''} \<and>
        m ''stats'' = Some ((stats_group ''10min'')\<lparr>interval := Some (Cron ''*/10 * * * *'')\<rparr>))"
proof -
  let ?bad = "\<lparr>Intervals = [''10min'' \<mapsto> ''*/10 * * * *''], Groups = [(''stats'', stats_group ''5min'')]\<rparr>"
  let ?ok = "\<lparr>Intervals = [''10min'' \<mapsto> ''*/10 * * * *''], Groups = [(''stats'', stats_group ''10min'')]\<rparr>"
  have e: "isl (example_parse [])" by (simp add: example_parse_def)
  have d1: "example_decode ''dangling'' = Inr ?bad" by (simp add: example_decode_def)
  have d2: "example_decode ''ok'' = Inr ?ok" by (simp add: example_decode_def)
  have "isl (ReadSchedulerGroups example_decode example_parse ''dangling'')"
    using ReadSchedulerGroups_fail_fast [of example_decode "''dangling''" ?bad example_parse] d1 e
    by (simp add: unresolvable_def stats_group_def)
  moreover have "\<exists>m. ReadSchedulerGroups example_decode example_parse ''ok'' = Inr m \<and>
        dom m = {''stats''} \<and>
        m ''stats'' = Some ((stats_group ''10min'')\<lparr>interval := Some (Cron ''*/10 * * * *'')\<rparr>)"
    using ReadSchedulerGroups_fail_fast [of example_decode "''ok''" ?ok example_parse] d2 e
    by (simp add: unresolvable_def stats_group_def example_parse_def)
  ultimately show ?thesis by blast
qed

section \<open>Establishing a connection\<close>

lemma attempts_connectToDb:
  "attempts (snd (connectToDb e cfg lg w)) = attempts w @ [cfg]"
  by (simp add: connectToDb_def Print_def Let_def split: option.splits)

lemma message_eq: "message err = s \<longleftrightarrow> err = Error s"
  by (cases err) auto

text \<open>
  C4. For a target that asks for SSL mode "prefer", \<open>establishConnection\<close> first
  attempts the connection with the mode "require". It makes a second attempt, with the
  mode "disable", if and only if the first attempt fails with exactly the error text
  "pq: SSL is not enabled on the server", and then hands back what the second attempt
  gave; any other outcome of the first attempt is handed back as it is, with no second
  attempt. For every other mode there is exactly one attempt, with the configuration
  unchanged.
\<close>

theorem establishConnection_ssl_policy:
  assumes "establishConnection e cfg lg w = (database, err, w')"
  shows "(if DbSslMode cfg = ''prefer''
    then (case connectToDb e (cfg\<lparr>DbSslMode := ''require''\<rparr>) lg w of
            (r1, w1) \<Rightarrow>
              if r1 = Inl (Error ssl_not_enabled)
              then (case connectToDb e (cfg\<lparr>DbSslMode := ''disable''\<rparr>) lg w1 of
                      (r2, w2) \<Rightarrow>
                        attempts w' = attempts w @ [cfg\<lparr>DbSslMode := ''require''\<rparr>, cfg\<lparr>DbSslMode := ''disable''\<rparr>] \<and>
                        w' = w2 \<and> returns database err r2)
              else attempts w' = attempts w @ [cfg\<lparr>DbSslMode := ''require''\<rparr>] \<and>
                   w' = w1 \<and> returns database err r1)
    else (case connectToDb e cfg lg w of
            (r1, w1) \<Rightarrow> attempts w' = attempts w @ [cfg] \<and> w' = w1 \<and> returns database err r1))"
proof (cases "DbSslMode cfg = ''prefer''")
  case True
  obtain r1 w1 where c1: "connectToDb e (cfg\<lparr>DbSslMode := ''require''\<rparr>) lg w = (r1, w1)"
    by (cases "connectToDb e (cfg\<lparr>DbSslMode := ''require''\<rparr>) lg w")
  have a1: "attempts w1 = attempts w @ [cfg\<lparr>DbSslMode := ''require''\<rparr>]"
    using attempts_connectToDb [of e "cfg\<lparr>DbSslMode := ''require''\<rparr>" lg w] c1 by simp
  obtain r2 w2 where c2: "connectToDb e (cfg\<lparr>DbSslMode := ''disable''\<rparr>) lg w1 = (r2, w2)"
    by (cases "connectToDb e (cfg\<lparr>DbSslMode := ''disable''\<rparr>) lg w1")
  have a2: "attempts w2 = attempts w1 @ [cfg\<lparr>DbSslMode := ''disable''\<rparr>]"
    using attempts_connectToDb [of e "cfg\<lparr>DbSslMode := ''disable''\<rparr>" lg w1] c2 by simp
  show ?thesis
  proof (cases r1)
    case (Inr db)
    with assms True c1 a1 show ?thesis
      by (auto simp: establishConnection_def returns_def)
  next
    case (Inl x)
    show ?thesis
    proof (cases "x = Error ssl_not_enabled")
      case False
      with assms True c1 a1 Inl show ?thesis
        by (auto simp: establishConnection_def returns_def message_eq)
    next
      case yes: True
      with assms True c1 c2 a1 a2 Inl show ?thesis
        by (cases r2) (auto simp: establishConnection_def returns_def)
    qed
  qed
next
  case False
  obtain r1 w1 where c1: "connectToDb e cfg lg w = (r1, w1)"
    by (cases "connectToDb e cfg lg w")
  have a1: "attempts w1 = attempts w @ [cfg]"
    using attempts_connectToDb [of e cfg lg w] c1 by simp
  from assms False c1 a1 show ?thesis
    by (cases r1) (auto simp: establishConnection_def returns_def)
qed

theorem establishConnection_ssl_policy_witness:
  "(case establishConnection example_env (target ''pg1'' ''prefer'') ''pg1'' empty_world of
      (database, err, w') \<Rightarrow>
        err = None \<and> connection database = Some 1 \<and>
        attempts w' = [target ''pg1'' ''require'', target ''pg1'' ''disable'']) \<and>
   (case establishConnection example_env (target ''pg2'' ''disable'') ''pg2'' empty_world of
      (database, err, w') \<Rightarrow>
        err = Some (Error ''connection refused'') \<and> attempts w' = [target ''pg2'' ''disable''])"
proof -
  obtain d1 r1 w1 where h1:
    "establishConnection example_env (target ''pg1'' ''prefer'') ''pg1'' empty_world = (d1, r1, w1)"
    by (cases "establishConnection example_env (target ''pg1'' ''prefer'') ''pg1'' empty_world")
  obtain d2 r2 w2 where h2:
    "establishConnection example_env (target ''pg2'' ''disable'') ''pg2'' empty_world = (d2, r2, w2)"
    by (cases "establishConnection example_env (target ''pg2'' ''disable'') ''pg2'' empty_world")
  have "r1 = None \<and> connection d1 = Some 1 \<and>
        attempts w1 = [target ''pg1'' ''require'', target ''pg1'' ''disable'']"
    using establishConnection_ssl_policy [OF h1]
    by (simp add: example_defs returns_def)
  moreover have "r2 = Some (Error ''connection refused'') \<and> attempts w2 = [target ''pg2'' ''disable'']"
    using establishConnection_ssl_policy [OF h2]
    by (simp add: example_defs returns_def)
  ultimately show ?thesis by (simp add: h1 h2)
qed

text \<open>
  C10. The record that \<open>establishConnection\<close> returns holds the configuration it was
  given, with the SSL mode that was asked for, also when the attempts were made with
  "require" or "disable"; when it returns an error, the record still holds that
  configuration and its connection is nil.
\<close>

theorem establishConnection_keeps_config:
  "establishConnection e cfg lg w = (database, err, w') \<Longrightarrow>
   config database = cfg \<and> DbSslMode (config database) = DbSslMode cfg \<and>
   (err \<noteq> None \<longrightarrow> connection database = None)"
  by (auto simp: establishConnection_def Let_def split: prod.splits sum.splits if_splits)

theorem establishConnection_keeps_config_witness:
  "(case establishConnection example_env (target ''pg1'' ''prefer'') ''pg1'' empty_world of
      (database, err, w') \<Rightarrow> DbSslMode (config database) = ''prefer'') \<and>
   (case establishConnection example_env (target ''pg2'' ''disable'') ''pg2'' empty_world of
      (database, err, w') \<Rightarrow>
        err \<noteq> None \<and> config database = target ''pg2'' ''disable'' \<and> connection database = None)"
proof -
  obtain d1 r1 w1 where h1:
    "establishConnection example_env (target ''pg1'' ''prefer'') ''pg1'' empty_world = (d1, r1, w1)"
    by (cases "establishConnection example_env (target ''pg1'' ''prefer'') ''pg1'' empty_world")
  obtain d2 r2 w2 where h2:
    "establishConnection example_env (target ''pg2'' ''disable'') ''pg2'' empty_world = (d2, r2, w2)"
    by (cases "establishConnection example_env (target ''pg2'' ''disable'') ''pg2'' empty_world")
  have n: "r2 \<noteq> None"
    using h2 by (auto simp: establishConnection_def example_defs)
  have "DbSslMode (config d1) = ''prefer''"
    using establishConnection_keeps_config [OF h1] by (simp add: target_def)
  moreover have "config d2 = target ''pg2'' ''disable'' \<and> connection d2 = None"
    using establishConnection_keeps_config [OF h2] n by simp
  ultimately show ?thesis using n by (simp add: h1 h2)
qed

section \<open>Establishing and collecting, one target after the other\<close>

lemma logged_connectToDb:
  "set (logged w) \<subseteq> set (logged (snd (connectToDb e cfg lg w)))"
  by (auto simp: connectToDb_def Print_def Let_def split: option.splits)

lemma config_establishConnection:
  "establishConnection e cfg lg w = (database, err, w') \<Longrightarrow> config database = cfg"
  by (auto simp: establishConnection_def Let_def split: prod.splits sum.splits if_splits)

lemma establishConnection_world:
  assumes "establishConnection e cfg lg w = (database, err, w')"
  shows "\<exists>c1. c1\<lparr>DbSslMode := DbSslMode cfg\<rparr> = cfg \<and>
           (w' = snd (connectToDb e c1 lg w) \<or>
            w' = snd (connectToDb e (c1\<lparr>DbSslMode := ''disable''\<rparr>) lg (snd (connectToDb e c1 lg w))))"
proof -
  define c1 where "c1 = (if DbSslMode cfg = ''prefer'' then cfg\<lparr>DbSslMode := ''require''\<rparr> else cfg)"
  have c: "c1\<lparr>DbSslMode := DbSslMode cfg\<rparr> = cfg" by (simp add: c1_def)
  obtain r1 w1 where k1: "connectToDb e c1 lg w = (r1, w1)" by (cases "connectToDb e c1 lg w")
  obtain r2 w2 where k2: "connectToDb e (c1\<lparr>DbSslMode := ''disable''\<rparr>) lg w1 = (r2, w2)"
    by (cases "connectToDb e (c1\<lparr>DbSslMode := ''disable''\<rparr>) lg w1")
  from assms k1 k2 have "w' = w1 \<or> w' = w2"
    unfolding establishConnection_def Let_def c1_def [symmetric]
    by (cases r1; cases r2) (auto split: if_splits)
  with k1 k2 c show ?thesis by auto
qed

lemma logged_establishConnection:
  assumes "establishConnection e cfg lg w = (database, err, w')"
  shows "set (logged w) \<subseteq> set (logged w')"
proof -
  from establishConnection_world [OF assms] obtain c1 where
    "w' = snd (connectToDb e c1 lg w) \<or>
     w' = snd (connectToDb e (c1\<lparr>DbSslMode := ''disable''\<rparr>) lg (snd (connectToDb e c1 lg w)))"
    by blast
  then show ?thesis
    using logged_connectToDb [of w e c1 lg]
      logged_connectToDb [of "snd (connectToDb e c1 lg w)" e "c1\<lparr>DbSslMode := ''disable''\<rparr>" lg]
    by blast
qed

lemma attempts_establishConnection:
  assumes "establishConnection e cfg lg w = (database, err, w')"
  shows "\<exists>a xs. attempts w' = attempts w @ a # xs \<and> a\<lparr>DbSslMode := DbSslMode cfg\<rparr> = cfg"
proof -
  from establishConnection_world [OF assms] obtain c1 where
    c: "c1\<lparr>DbSslMode := DbSslMode cfg\<rparr> = cfg" and
    "w' = snd (connectToDb e c1 lg w) \<or>
     w' = snd (connectToDb e (c1\<lparr>DbSslMode := ''disable''\<rparr>) lg (snd (connectToDb e c1 lg w)))"
    by blast
  then have "attempts w' = attempts w @ c1 # [] \<or>
             attempts w' = attempts w @ c1 # [c1\<lparr>DbSslMode := ''disable''\<rparr>]"
    by (auto simp: attempts_connectToDb)
  with c show ?thesis by blast
qed

lemma establish_targets_acc:
  "fst (establish_targets e cfgs acc w) =
   acc @ map fst (filter (\<lambda>(d, r). r = None) (establish_outcomes e cfgs w))"
proof (induction cfgs arbitrary: acc w)
  case Nil
  then show ?case by simp
next
  case (Cons cfg cfgs)
  obtain d r w1 where ec: "establishConnection e cfg (SectionName cfg) w = (d, r, w1)"
    by (cases "establishConnection e cfg (SectionName cfg) w")
  show ?case
    by (cases r) (simp_all add: ec Cons.IH)
qed

lemma establish_outcomes_configs:
  "map (\<lambda>(d, r). config d) (establish_outcomes e cfgs w) = cfgs"
proof (induction cfgs arbitrary: w)
  case Nil
  then show ?case by simp
next
  case (Cons cfg cfgs)
  obtain d r w1 where ec: "establishConnection e cfg (SectionName cfg) w = (d, r, w1)"
    by (cases "establishConnection e cfg (SectionName cfg) w")
  from config_establishConnection [OF ec] show ?case
    by (simp add: ec Cons.IH)
qed

lemma establish_targets_logged_mono:
  "set (logged w) \<subseteq> set (logged (snd (establish_targets e cfgs acc w)))"
proof (induction cfgs arbitrary: acc w)
  case Nil
  then show ?case by simp
next
  case (Cons cfg cfgs)
  obtain d r w1 where ec: "establishConnection e cfg (SectionName cfg) w = (d, r, w1)"
    by (cases "establishConnection e cfg (SectionName cfg) w")
  note m = logged_establishConnection [OF ec]
  show ?case
  proof (cases r)
    case None
    with m Cons.IH [where acc = "acc @ [d]" and w = w1] show ?thesis by (auto simp: ec)
  next
    case (Some err)
    let ?w2 = "Print Err (SectionName cfg) (''Error: Failed to connect to database: '' @ message err) w1"
    have "set (logged w1) \<subseteq> set (logged ?w2)" by (auto simp: Print_def)
    with m Cons.IH [where acc = acc and w = "?w2"] Some show ?thesis by (auto simp: ec)
  qed
qed

lemma establish_targets_failures_logged:
  "(d, Some err) \<in> set (establish_outcomes e cfgs w) \<Longrightarrow>
   (Err, SectionName (config d), ''Error: Failed to connect to database: '' @ message err)
     \<in> set (logged (snd (establish_targets e cfgs acc w)))"
proof (induction cfgs arbitrary: acc w)
  case Nil
  then show ?case by simp
next
  case (Cons cfg cfgs)
  obtain d0 r w1 where ec: "establishConnection e cfg (SectionName cfg) w = (d0, r, w1)"
    by (cases "establishConnection e cfg (SectionName cfg) w")
  note c = config_establishConnection [OF ec]
  show ?case
  proof (cases r)
    case None
    with Cons.prems Cons.IH [where acc = "acc @ [d0]" and w = w1] show ?thesis by (auto simp: ec)
  next
    case (Some err0)
    let ?w2 = "Print Err (SectionName cfg) (''Error: Failed to connect to database: '' @ message err0) w1"
    show ?thesis
    proof (cases "(d, Some err) = (d0, r)")
      case True
      have "(Err, SectionName cfg, ''Error: Failed to connect to database: '' @ message err0) \<in> set (logged ?w2)"
        by (simp add: Print_def)
      with establish_targets_logged_mono [of ?w2 e cfgs acc] True Some c show ?thesis
        by (auto simp: ec)
    next
      case False
      with Cons.prems Some have "(d, Some err) \<in> set (establish_outcomes e cfgs ?w2)"
        by (auto simp: ec)
      from Cons.IH [OF this, where acc = acc] Some show ?thesis by (simp add: ec)
    qed
  qed
qed

lemma establish_targets_attempts_mono:
  "\<exists>xs. attempts (snd (establish_targets e cfgs acc w)) = attempts w @ xs"
proof (induction cfgs arbitrary: acc w)
  case Nil
  then show ?case by simp
next
  case (Cons cfg cfgs)
  obtain d r w1 where ec: "establishConnection e cfg (SectionName cfg) w = (d, r, w1)"
    by (cases "establishConnection e cfg (SectionName cfg) w")
  from attempts_establishConnection [OF ec] obtain a xs where
    a: "attempts w1 = attempts w @ a # xs" by blast
  show ?case
  proof (cases r)
    case None
    with a Cons.IH [where acc = "acc @ [d]" and w = w1] show ?thesis by (auto simp: ec)
  next
    case (Some err)
    let ?w2 = "Print Err (SectionName cfg) (''Error: Failed to connect to database: '' @ message err) w1"
    have "attempts ?w2 = attempts w1" by (simp add: Print_def)
    with a Cons.IH [where acc = acc and w = "?w2"] Some show ?thesis by (auto simp: ec)
  qed
qed

lemma establish_targets_all_attempted:
  "cfg \<in> set cfgs \<Longrightarrow>
   \<exists>a \<in> set (drop (length (attempts w)) (attempts (snd (establish_targets e cfgs acc w)))).
      a\<lparr>DbSslMode := DbSslMode cfg\<rparr> = cfg"
proof (induction cfgs arbitrary: acc w)
  case Nil
  then show ?case by simp
next
  case (Cons c cfgs)
  obtain d r w1 where ec: "establishConnection e c (SectionName c) w = (d, r, w1)"
    by (cases "establishConnection e c (SectionName c) w")
  from attempts_establishConnection [OF ec] obtain a xs where
    a: "attempts w1 = attempts w @ a # xs" and ac: "a\<lparr>DbSslMode := DbSslMode c\<rparr> = c" by blast
  define w2 where "w2 = (case r of None \<Rightarrow> w1
     | Some err \<Rightarrow> Print Err (SectionName c) (''Error: Failed to connect to database: '' @ message err) w1)"
  define acc2 where "acc2 = (case r of None \<Rightarrow> acc @ [d] | Some err \<Rightarrow> acc)"
  have step: "establish_targets e (c # cfgs) acc w = establish_targets e cfgs acc2 w2"
    by (cases r) (simp_all add: ec w2_def acc2_def)
  have a2: "attempts w2 = attempts w @ a # xs"
    using a by (cases r) (simp_all add: w2_def Print_def)
  from establish_targets_attempts_mono [of e cfgs acc2 w2] obtain ys where
    ys: "attempts (snd (establish_targets e cfgs acc2 w2)) = attempts w2 @ ys" by blast
  show ?case
  proof (cases "cfg = c")
    case True
    with ac ys a2 show ?thesis unfolding step by auto
  next
    case False
    with Cons.prems have "cfg \<in> set cfgs" by simp
    from Cons.IH [OF this, where w = w2 and acc = acc2] obtain b where
      b: "b \<in> set (drop (length (attempts w2)) (attempts (snd (establish_targets e cfgs acc2 w2))))"
      and bc: "b\<lparr>DbSslMode := DbSslMode cfg\<rparr> = cfg" by blast
    from b ys have "b \<in> set ys" by simp
    with ys a2 have "b \<in> set (drop (length (attempts w)) (attempts (snd (establish_targets e cfgs acc2 w2))))"
      by simp
    with bc show ?thesis unfolding step by auto
  qed
qed

lemma collected_Print [simp]: "collected (Print lv p t w) = collected w"
  by (simp add: Print_def)

lemma collectStatistics_effect:
  assumes "collectStatistics e cfg db submit lg w = (r, w')"
  shows "collected w' = collected w @ [(cfg, db)] \<and> attempts w' = attempts w \<and>
         opened w' = opened w \<and>
         (case r of
            None \<Rightarrow> \<exists>t. logged w' = logged w @ [(Info, lg, t)]
          | Some err \<Rightarrow> logged w' = logged w)"
  using assms
  by (auto simp: collectStatistics_def Let_def Print_def split: option.splits sum.splits if_splits)

text \<open>The world in which the loop of \<open>collectAllDatabases\<close> goes on after the first
  record, with the outcome of that record and the line it has left in the log.\<close>

lemma collect_first:
  obtains r w2 line where
    "collectAllDatabases e (d # ds) submit w = collectAllDatabases e ds submit w2"
    "collect_outcomes e (d # ds) submit w = (d, r) # collect_outcomes e ds submit w2"
    "collected w2 = collected w @ [(config d, connection d)]"
    "opened w2 = opened w"
    "logged w2 = logged w @ [line]"
    "(fst line, fst (snd line)) = outcome_line (d, r)"
    "failure_logged [line] (d, r)"
proof -
  obtain r w1 where c: "collectStatistics e (config d) (connection d) submit (SectionName (config d)) w = (r, w1)"
    by (cases "collectStatistics e (config d) (connection d) submit (SectionName (config d)) w")
  note f = collectStatistics_effect [OF c]
  show thesis
  proof (cases r)
    case None
    with f obtain t where t: "logged w1 = logged w @ [(Info, SectionName (config d), t)]" by auto
    show ?thesis
    proof (rule that [of w1 r "(Info, SectionName (config d), t)"])
      show "collectAllDatabases e (d # ds) submit w = collectAllDatabases e ds submit w1"
        by (simp add: c None)
      show "collect_outcomes e (d # ds) submit w = (d, r) # collect_outcomes e ds submit w1"
        by (simp add: c None)
      show "collected w1 = collected w @ [(config d, connection d)]" using f by simp
      show "opened w1 = opened w" using f by simp
      show "logged w1 = logged w @ [(Info, SectionName (config d), t)]" by (rule t)
      show "(fst (Info, SectionName (config d), t), fst (snd (Info, SectionName (config d), t))) =
            outcome_line (d, r)"
        by (simp add: outcome_line_def None)
      show "failure_logged [(Info, SectionName (config d), t)] (d, r)"
        by (simp add: failure_logged_def None)
    qed
  next
    case (Some err)
    let ?w2 = "Print Err (SectionName (config d)) (message err) w1"
    show ?thesis
    proof (rule that [of ?w2 r "(Err, SectionName (config d), message err)"])
      show "collectAllDatabases e (d # ds) submit w = collectAllDatabases e ds submit ?w2"
        by (simp add: c Some)
      show "collect_outcomes e (d # ds) submit w = (d, r) # collect_outcomes e ds submit ?w2"
        by (simp add: c Some)
      show "collected ?w2 = collected w @ [(config d, connection d)]" using f by simp
      show "opened ?w2 = opened w" using f by (simp add: Print_def)
      show "logged ?w2 = logged w @ [(Err, SectionName (config d), message err)]"
        using f Some by (simp add: Print_def)
      show "(fst (Err, SectionName (config d), message err),
             fst (snd (Err, SectionName (config d), message err))) = outcome_line (d, r)"
        by (simp add: outcome_line_def Some)
      show "failure_logged [(Err, SectionName (config d), message err)] (d, r)"
        by (simp add: failure_logged_def Some)
    qed
  qed
qed

lemma collectAllDatabases_collected:
  "collected (collectAllDatabases e ds submit w) =
   collected w @ map (\<lambda>d. (config d, connection d)) ds"
proof (induction ds arbitrary: w)
  case Nil
  then show ?case by simp
next
  case (Cons d ds)
  obtain r w2 line where
    1: "collectAllDatabases e (d # ds) submit w = collectAllDatabases e ds submit w2" and
    2: "collected w2 = collected w @ [(config d, connection d)]"
    by (rule collect_first [of e d ds submit w])
  show ?case unfolding 1 Cons.IH 2 by simp
qed

lemma collect_outcomes_records: "map fst (collect_outcomes e ds submit w) = ds"
proof (induction ds arbitrary: w)
  case Nil
  then show ?case by simp
next
  case (Cons d ds)
  obtain r w2 line where
    1: "collect_outcomes e (d # ds) submit w = (d, r) # collect_outcomes e ds submit w2"
    by (rule collect_first [of e d ds submit w])
  show ?case unfolding 1 by (simp add: Cons.IH)
qed

lemma failure_logged_mono: "failure_logged ls dr \<Longrightarrow> set ls \<subseteq> set ls' \<Longrightarrow> failure_logged ls' dr"
  by (auto simp: failure_logged_def split: option.splits)

lemma collectAllDatabases_logged:
  "\<exists>ls. logged (collectAllDatabases e ds submit w) = logged w @ ls \<and>
        map (\<lambda>l. (fst l, fst (snd l))) ls = map outcome_line (collect_outcomes e ds submit w) \<and>
        list_all (failure_logged ls) (collect_outcomes e ds submit w)"
proof (induction ds arbitrary: w)
  case Nil
  then show ?case by simp
next
  case (Cons d ds)
  obtain r w2 line where
    1: "collectAllDatabases e (d # ds) submit w = collectAllDatabases e ds submit w2" and
    2: "collect_outcomes e (d # ds) submit w = (d, r) # collect_outcomes e ds submit w2" and
    3: "logged w2 = logged w @ [line]" and
    4: "(fst line, fst (snd line)) = outcome_line (d, r)" and
    5: "failure_logged [line] (d, r)"
    by (rule collect_first [of e d ds submit w])
  from Cons.IH [of w2] obtain ls where
    a: "logged (collectAllDatabases e ds submit w2) = logged w2 @ ls" and
    b: "map (\<lambda>l. (fst l, fst (snd l))) ls = map outcome_line (collect_outcomes e ds submit w2)" and
    c: "list_all (failure_logged ls) (collect_outcomes e ds submit w2)"
    by blast
  have "logged (collectAllDatabases e (d # ds) submit w) = logged w @ (line # ls)"
    unfolding 1 a 3 by simp
  moreover have "map (\<lambda>l. (fst l, fst (snd l))) (line # ls) =
                 map outcome_line (collect_outcomes e (d # ds) submit w)"
    unfolding 2 using 4 b by simp
  moreover have "list_all (failure_logged (line # ls)) (collect_outcomes e (d # ds) submit w)"
  proof -
    have "failure_logged (line # ls) (d, r)"
      using 5 by (rule failure_logged_mono) simp
    moreover have "list_all (failure_logged (line # ls)) (collect_outcomes e ds submit w2)"
      using c by (auto simp: list_all_iff intro: failure_logged_mono)
    ultimately show ?thesis unfolding 2 by simp
  qed
  ultimately show ?case by blast
qed

lemma pass_collects_collectAllDatabases:
  "pass_collects e ds submit w (collectAllDatabases e ds submit w)"
proof -
  from collectAllDatabases_logged [of e ds submit w] obtain ls where
    a: "logged (collectAllDatabases e ds submit w) = logged w @ ls" and
    b: "map (\<lambda>l. (fst l, fst (snd l))) ls = map outcome_line (collect_outcomes e ds submit w)" and
    c: "list_all (failure_logged ls) (collect_outcomes e ds submit w)"
    by blast
  show ?thesis
    unfolding pass_collects_def a
    using b c by (simp add: collectAllDatabases_collected collect_outcomes_records)
qed

section \<open>Invariants of the daemon\<close>

lemma step_cases:
  assumes "step e ev s = Some s'"
  obtains (tick) "ev = Tick" "tick s = Some s'"
  | (deliver) sg where "ev = Deliver sg" "deliver sg s = Some s'"
  | (main) "ev = MainStep" "main_step e s = Some s'"
  | (loop) h where "ev = LoopStep h" "loop_step e h s = Some s'"
  | (handoff) "ev = Handoff" "handoff s = Some s'"
  using assms by (cases ev) (auto simp: step_def split: if_splits)

lemma counters_ok_step:
  assumes "counters_ok s" "step e ev s = Some s'"
  shows "counters_ok s'"
  using assms(2)
proof (cases rule: step_cases)
  case tick
  with assms(1) show ?thesis by (auto simp: tick_def handoff_def send_stop_def counters_ok_def split: if_splits option.splits main_pc.splits)
next
  case (deliver sg)
  with assms(1) show ?thesis by (auto simp: deliver_def counters_ok_def split: if_splits)
next
  case main
  with assms(1) show ?thesis
    by (auto simp: main_step_def do_run_def counters_ok_def main_wg_def Let_def nth_append
        split: main_pc.splits option.splits if_splits prod.splits)
next
  case (loop h)
  with assms(1) show ?thesis
    by (auto simp: loop_step_def set_loop_def counters_ok_def main_wg_def Let_def nth_list_update
        split: loop_pc.splits option.splits if_splits)
next
  case handoff
  with assms(1) show ?thesis
    by (auto simp: handoff_def send_stop_def set_loop_def counters_ok_def nth_list_update
        split: main_pc.splits if_splits option.splits)
qed

lemma calls_ok_step:
  assumes "calls_ok s" "step e ev s = Some s'"
  shows "calls_ok s'"
  using assms(2)
proof (cases rule: step_cases)
  case tick
  with assms(1) show ?thesis by (auto simp: tick_def handoff_def send_stop_def calls_ok_def split: if_splits option.splits main_pc.splits)
next
  case (deliver sg)
  with assms(1) show ?thesis by (auto simp: deliver_def calls_ok_def split: if_splits)
next
  case main
  with assms(1) show ?thesis
    by (auto simp: main_step_def do_run_def calls_ok_def Let_def nth_append in_runner_def
        split: main_pc.splits option.splits if_splits prod.splits)
next
  case (loop h)
  with assms(1) show ?thesis
    by (auto simp: loop_step_def set_loop_def calls_ok_def Let_def nth_list_update in_runner_def
        split: loop_pc.splits option.splits if_splits)
next
  case handoff
  with assms(1) show ?thesis
    by (auto simp: handoff_def send_stop_def set_loop_def calls_ok_def nth_list_update in_runner_def in_select_def
        split: main_pc.splits if_splits loop_pc.splits option.splits)
qed

lemma one_live_step:
  assumes "one_live s" "step e ev s = Some s'"
  shows "one_live s'"
  using assms(2)
proof (cases rule: step_cases)
  case tick
  with assms(1) show ?thesis by (auto simp: tick_def handoff_def send_stop_def one_live_def split: if_splits option.splits main_pc.splits)
next
  case (deliver sg)
  with assms(1) show ?thesis by (auto simp: deliver_def one_live_def quiet_main_def split: if_splits)
next
  case main
  with assms(1) show ?thesis
    by (auto simp: main_step_def do_run_def one_live_def Let_def nth_append quiet_main_def
        split: main_pc.splits option.splits if_splits prod.splits)
next
  case (loop h)
  with assms(1) show ?thesis
    by (auto simp: loop_step_def set_loop_def one_live_def Let_def nth_list_update quiet_main_def
        split: loop_pc.splits option.splits if_splits)
next
  case handoff
  with assms(1) show ?thesis
    by (auto simp: handoff_def send_stop_def set_loop_def one_live_def nth_list_update quiet_main_def
        split: main_pc.splits if_splits option.splits)
qed


lemma run_events_invariant:
  assumes "\<And>s ev s'. P s \<Longrightarrow> step e ev s = Some s' \<Longrightarrow> P s'"
  shows "P s \<Longrightarrow> run_events e es s = Some s' \<Longrightarrow> P s'"
proof (induction es arbitrary: s)
  case Nil
  then show ?case by simp
next
  case (Cons ev es)
  from Cons.prems(2) obtain s1 where 1: "step e ev s = Some s1" and 2: "run_events e es s1 = Some s'"
    by (auto split: option.splits)
  from assms [OF Cons.prems(1) 1] have "P s1" .
  from Cons.IH [OF this 2] show ?case .
qed

lemma counters_ok_init: "counters_ok init"
  by (simp add: counters_ok_def init_def main_wg_def)

lemma calls_ok_init: "calls_ok init"
  by (simp add: calls_ok_def init_def)

lemma one_live_init: "one_live init"
  by (simp add: one_live_def init_def)

lemma counters_ok_reachable:
  assumes "run_events e es init = Some s"
  shows "counters_ok s"
  using counters_ok_init assms
  by (rule run_events_invariant [rotated]) (blast intro: counters_ok_step)

lemma calls_ok_reachable:
  assumes "run_events e es init = Some s"
  shows "calls_ok s"
  using calls_ok_init assms
  by (rule run_events_invariant [rotated]) (blast intro: calls_ok_step)

lemma one_live_reachable:
  assumes "run_events e es init = Some s"
  shows "one_live s"
  using one_live_init assms
  by (rule run_events_invariant [rotated]) (blast intro: one_live_step)

lemma sum_list_zero: "(\<forall>x \<in> set xs. f x = (0::nat)) \<Longrightarrow> sum_list (map f xs) = 0"
  by (induction xs) auto

lemma sum_list_at_most_one:
  fixes f :: "'a \<Rightarrow> nat"
  assumes "\<forall>i < length xs. f (xs ! i) \<le> 1"
    and "\<forall>i < length xs. \<forall>j < length xs. f (xs ! i) \<noteq> 0 \<and> f (xs ! j) \<noteq> 0 \<longrightarrow> i = j"
  shows "sum_list (map f xs) \<le> 1"
  using assms
proof (induction xs)
  case Nil
  then show ?case by simp
next
  case (Cons x xs)
  have le: "\<forall>i < length xs. f (xs ! i) \<le> 1"
    using Cons.prems(1) by (metis Suc_less_eq length_Cons nth_Cons_Suc)
  show ?case
  proof (cases "f x = 0")
    case True
    have "\<forall>i < length xs. \<forall>j < length xs. f (xs ! i) \<noteq> 0 \<and> f (xs ! j) \<noteq> 0 \<longrightarrow> i = j"
    proof (intro allI impI)
      fix i j assume "i < length xs" "j < length xs" "f (xs ! i) \<noteq> 0 \<and> f (xs ! j) \<noteq> 0"
      with Cons.prems(2) [rule_format, of "Suc i" "Suc j"] show "i = j" by simp
    qed
    from Cons.IH [OF le this] True show ?thesis by simp
  next
    case False
    have "\<forall>y \<in> set xs. f y = 0"
    proof
      fix y assume "y \<in> set xs"
      then obtain i where i: "i < length xs" "xs ! i = y" by (auto simp: in_set_conv_nth)
      show "f y = 0"
      proof (rule ccontr)
        assume "f y \<noteq> 0"
        with Cons.prems(2) [rule_format, of 0 "Suc i"] False i show False by simp
      qed
    qed
    then have z: "sum_list (map f xs) = 0" by (rule sum_list_zero)
    have "f x \<le> 1" using Cons.prems(1) [rule_format, of 0] by simp
    then show ?thesis unfolding list.map sum_list.Cons z by simp
  qed
qed

lemma run_events_append:
  "run_events e (xs @ ys) s = (case run_events e xs s of None \<Rightarrow> None | Some s1 \<Rightarrow> run_events e ys s1)"
  by (induction xs arbitrary: s) (auto split: option.splits)

text \<open>
  C3. In every state the daemon can reach, on every goroutine of \<open>Schedule\<close> the calls of
  \<open>runner\<close> exceed its returns by one while a call is in flight and by nothing otherwise
  (the loop is back at its head, and computes the next fire time, only after \<open>runner\<close> has
  returned); no two goroutines are inside \<open>runner\<close> at once, so at most one call is in
  flight in the whole process; and whenever \<open>main\<close> is about to call \<open>run\<close>, which
  starts the next goroutine, every earlier goroutine has received its stop and returned.
\<close>

theorem runner_calls_never_overlap:
  assumes "run_events e es init = Some s"
  shows "(\<forall>h < length (loops s).
            started (loops s ! h) = finished (loops s ! h) + (if in_runner (pc (loops s ! h)) then 1 else 0)) \<and>
         (\<forall>h < length (loops s). \<forall>h' < length (loops s).
            in_runner (pc (loops s ! h)) \<and> in_runner (pc (loops s ! h')) \<longrightarrow> h = h') \<and>
         sum_list (map (\<lambda>l. started l - finished l) (loops s)) \<le> 1 \<and>
         (mainpc s = AtRun \<longrightarrow> (\<forall>h < length (loops s). pc (loops s ! h) = Done))"
proof -
  from calls_ok_reachable [OF assms] have c:
    "\<forall>h < length (loops s).
       started (loops s ! h) = finished (loops s ! h) + (if in_runner (pc (loops s ! h)) then 1 else 0)"
    by (simp add: calls_ok_def)
  from one_live_reachable [OF assms] have o:
    "\<forall>h < length (loops s). h \<noteq> stop s \<longrightarrow> pc (loops s ! h) = Done"
    and q: "quiet_main (mainpc s) \<longrightarrow> (\<forall>h < length (loops s). pc (loops s ! h) = Done)"
    by (simp_all add: one_live_def)
  have u: "\<forall>h < length (loops s). \<forall>h' < length (loops s).
            in_runner (pc (loops s ! h)) \<and> in_runner (pc (loops s ! h')) \<longrightarrow> h = h'"
  proof (intro allI impI)
    fix h h' assume "h < length (loops s)" "h' < length (loops s)"
      and r: "in_runner (pc (loops s ! h)) \<and> in_runner (pc (loops s ! h'))"
    with o have "h = stop s" "h' = stop s" by (auto simp: in_runner_def)
    then show "h = h'" by simp
  qed
  let ?f = "\<lambda>l. started l - finished l"
  have f: "?f (loops s ! h) = (if in_runner (pc (loops s ! h)) then 1 else 0)"
    if "h < length (loops s)" for h
    using c that by simp
  have "sum_list (map ?f (loops s)) \<le> 1"
  proof (rule sum_list_at_most_one)
    show "\<forall>i < length (loops s). ?f (loops s ! i) \<le> 1" using f by simp
    show "\<forall>i < length (loops s). \<forall>j < length (loops s).
            ?f (loops s ! i) \<noteq> 0 \<and> ?f (loops s ! j) \<noteq> 0 \<longrightarrow> i = j"
    proof (intro allI impI)
      fix i j assume ij: "i < length (loops s)" "j < length (loops s)"
        and nz: "?f (loops s ! i) \<noteq> 0 \<and> ?f (loops s ! j) \<noteq> 0"
      from nz f [OF ij(1)] f [OF ij(2)]
      have "in_runner (pc (loops s ! i)) \<and> in_runner (pc (loops s ! j))"
        by (auto split: if_splits)
      with u ij show "i = j" by blast
    qed
  qed
  moreover from q have "mainpc s = AtRun \<longrightarrow> (\<forall>h < length (loops s). pc (loops s ! h) = Done)"
    by (simp add: quiet_main_def)
  ultimately show ?thesis using c u by blast
qed

theorem runner_calls_never_overlap_witness:
  "\<exists>s. run_events example_env first_pass init = Some s \<and>
        in_runner (pc (loops s ! 0)) \<and>
        started (loops s ! 0) = finished (loops s ! 0) + 1 \<and>
        sum_list (map (\<lambda>l. started l - finished l) (loops s)) \<le> 1"
proof -
  have "run_events example_env first_pass init \<noteq> None" by code_simp
  then obtain s where h: "run_events example_env first_pass init = Some s" by blast
  have "map_option (\<lambda>s. (length (loops s), pc (loops s ! 0))) (run_events example_env first_pass init) =
        Some (1, Collecting)"
    by code_simp
  with h have l: "length (loops s) = 1" and p: "pc (loops s ! 0) = Collecting" by simp_all
  from runner_calls_never_overlap [OF h] l p h show ?thesis
    by (simp add: in_runner_def)
qed

section \<open>A pass collects the generation, target by target\<close>

lemma step_keeps_databases:
  assumes "step e ev s = Some s'" "h < length (loops s)"
  shows "h < length (loops s') \<and> loop_databases (loops s' ! h) = loop_databases (loops s ! h)"
  using assms(1)
proof (cases rule: step_cases)
  case tick
  with assms show ?thesis by (auto simp: tick_def split: option.splits)
next
  case (deliver sg)
  with assms show ?thesis by (auto simp: deliver_def split: if_splits)
next
  case main
  with assms show ?thesis
    by (auto simp: main_step_def do_run_def Let_def nth_append
        split: main_pc.splits option.splits if_splits prod.splits)
next
  case (loop h')
  with assms show ?thesis
    by (auto simp: loop_step_def set_loop_def Let_def nth_list_update
        split: loop_pc.splits option.splits if_splits)
next
  case handoff
  with assms show ?thesis
    by (auto simp: handoff_def send_stop_def set_loop_def nth_list_update
        split: main_pc.splits if_splits option.splits)
qed

lemma run_events_keeps_databases:
  "run_events e es s = Some s' \<Longrightarrow> h < length (loops s) \<Longrightarrow>
   h < length (loops s') \<and> loop_databases (loops s' ! h) = loop_databases (loops s ! h)"
proof (induction es arbitrary: s)
  case Nil
  then show ?case by simp
next
  case (Cons ev es)
  from Cons.prems(1) obtain s1 where 1: "step e ev s = Some s1" and 2: "run_events e es s1 = Some s'"
    by (auto split: option.splits)
  from step_keeps_databases [OF 1 Cons.prems(2)]
  have a: "h < length (loops s1)" and b: "loop_databases (loops s1 ! h) = loop_databases (loops s ! h)"
    by simp_all
  from Cons.IH [OF 2 a] b show ?case by simp
qed

lemma collecting_step:
  assumes "h < length (loops t)" "pc (loops t ! h) = Collecting" "alive t"
  shows "\<exists>t'. step e (LoopStep h) t = Some t' \<and> pc (loops t' ! h) = Finishing \<and>
              outside t' = collectAllDatabases e (loop_databases (loops t ! h)) (submitCollectedData e) (outside t)"
  using assms by (simp add: step_def loop_step_def set_loop_def Let_def)

text \<open>
  C8. Whenever \<open>main\<close> calls \<open>run\<close> and the configuration loads, the loop of \<open>run\<close>
  attempts every configured target, whatever happened to the ones before it; the
  generation it builds holds exactly the records of the targets whose
  \<open>establishConnection\<close> returned no error, in configuration order; and every failure
  is logged as an error under the section name of its target. That generation is the one
  a pass collects: in a test run \<open>run\<close> itself makes the pass over it; otherwise the
  goroutine that \<open>Schedule\<close> starts holds it for good, and every pass that the timer
  triggers on that goroutine runs over it. A pass calls \<open>collectStatistics\<close> exactly once
  for each record of the generation, in order, also after a call has failed, and leaves
  one line in the log for each: the error under the section name of the target when its
  collection failed, the line of \<open>collectStatistics\<close> otherwise.
\<close>

theorem failed_target_is_isolated:
  assumes "mainpc s = AtRun"
    and "ReadSchedulerGroups (toml_Decode e) (cronexpr_Parse e) (DefaultConfig e) = Inr groups"
    and "config_Read e (length (loops s)) = Inr cfgs"
    and "establish_targets e cfgs [] (outside s) = (databases, w1)"
  shows "map (\<lambda>(d, r). config d) (establish_outcomes e cfgs (outside s)) = cfgs \<and>
         (\<forall>cfg \<in> set cfgs. \<exists>a \<in> set (drop (length (attempts (outside s))) (attempts w1)).
              a\<lparr>DbSslMode := DbSslMode cfg\<rparr> = cfg) \<and>
         databases = map fst (filter (\<lambda>(d, r). r = None) (establish_outcomes e cfgs (outside s))) \<and>
         (\<forall>(d, r) \<in> set (establish_outcomes e cfgs (outside s)). \<forall>err. r = Some err \<longrightarrow>
              (Err, SectionName (config d), ''Error: Failed to connect to database: '' @ message err)
                \<in> set (logged w1)) \<and>
         step e MainStep s = Some (do_run e s) \<and>
         (if effective_testRun e
          then mainpc (do_run e s) = Exited \<and>
               pass_collects e databases (submitCollectedData e) w1 (outside (do_run e s))
          else mainpc (do_run e s) = AwaitSignal \<and> outside (do_run e s) = w1 \<and>
               stop (do_run e s) = length (loops s) \<and>
               length (loops (do_run e s)) = Suc (length (loops s)) \<and>
               pc (loops (do_run e s) ! length (loops s)) = Top \<and>
               loop_databases (loops (do_run e s) ! length (loops s)) = databases \<and>
               (\<forall>es t. run_events e es (do_run e s) = Some t \<and>
                        pc (loops t ! length (loops s)) = Collecting \<and> alive t \<longrightarrow>
                  loop_databases (loops t ! length (loops s)) = databases \<and>
                  (\<exists>t'. step e (LoopStep (length (loops s))) t = Some t' \<and>
                        pc (loops t' ! length (loops s)) = Finishing \<and>
                        pass_collects e databases (submitCollectedData e) (outside t) (outside t'))))"
proof -
  let ?h = "length (loops s)"
  have 1: "map (\<lambda>(d, r). config d) (establish_outcomes e cfgs (outside s)) = cfgs"
    by (rule establish_outcomes_configs)
  have 2: "\<forall>cfg \<in> set cfgs. \<exists>a \<in> set (drop (length (attempts (outside s))) (attempts w1)).
              a\<lparr>DbSslMode := DbSslMode cfg\<rparr> = cfg"
    using establish_targets_all_attempted [of _ cfgs "outside s" e "[]"] assms(4) by simp
  have 3: "databases = map fst (filter (\<lambda>(d, r). r = None) (establish_outcomes e cfgs (outside s)))"
    using establish_targets_acc [of e cfgs "[]" "outside s"] assms(4) by simp
  have 4: "\<forall>(d, r) \<in> set (establish_outcomes e cfgs (outside s)). \<forall>err. r = Some err \<longrightarrow>
              (Err, SectionName (config d), ''Error: Failed to connect to database: '' @ message err)
                \<in> set (logged w1)"
    using establish_targets_failures_logged [of _ _ e cfgs "outside s" "[]"] assms(4) by auto
  have 5: "step e MainStep s = Some (do_run e s)"
    using assms(1) by (simp add: step_def alive_def main_step_def)
  have r: "run e ?h (outside s) =
           (if effective_testRun e
            then (None, collectAllDatabases e databases (submitCollectedData e) w1)
            else (Some (case groups ''stats'' of None \<Rightarrow> zero_Group | Some g \<Rightarrow> g, databases), w1))"
    using assms(2-4) by (simp add: run_def)
  have 6: "mainpc (do_run e s) = Exited \<and>
           pass_collects e databases (submitCollectedData e) w1 (outside (do_run e s))"
    if "effective_testRun e"
    using that r pass_collects_collectAllDatabases [of e databases "submitCollectedData e" w1]
    by (simp add: do_run_def Let_def)
  have 7: "mainpc (do_run e s) = AwaitSignal \<and> outside (do_run e s) = w1 \<and>
           stop (do_run e s) = ?h \<and> length (loops (do_run e s)) = Suc ?h \<and>
           pc (loops (do_run e s) ! ?h) = Top \<and>
           loop_databases (loops (do_run e s) ! ?h) = databases"
    if "\<not> effective_testRun e"
    using that r by (simp add: do_run_def Let_def)
  have 8: "loop_databases (loops t ! ?h) = databases \<and>
           (\<exists>t'. step e (LoopStep ?h) t = Some t' \<and> pc (loops t' ! ?h) = Finishing \<and>
                 pass_collects e databases (submitCollectedData e) (outside t) (outside t'))"
    if n: "\<not> effective_testRun e" and ev: "run_events e es (do_run e s) = Some t"
      and c: "pc (loops t ! ?h) = Collecting" and al: "alive t" for es t
  proof -
    from 7 [OF n] have l: "?h < length (loops (do_run e s))"
      and d: "loop_databases (loops (do_run e s) ! ?h) = databases" by simp_all
    from run_events_keeps_databases [OF ev l] d
    have l': "?h < length (loops t)" and d': "loop_databases (loops t ! ?h) = databases" by simp_all
    from collecting_step [OF l' c al, of e] d' obtain t' where
      "step e (LoopStep ?h) t = Some t'" "pc (loops t' ! ?h) = Finishing"
      "outside t' = collectAllDatabases e databases (submitCollectedData e) (outside t)"
      by auto
    with pass_collects_collectAllDatabases [of e databases "submitCollectedData e" "outside t"] d'
    show ?thesis by auto
  qed
  show ?thesis
  proof (cases "effective_testRun e")
    case True
    from 6 [OF True] have
      "mainpc (do_run e s) = Exited \<and>
       pass_collects e databases (submitCollectedData e) w1 (outside (do_run e s))" .
    with 1 2 3 4 5 show ?thesis unfolding if_P [OF True] by blast
  next
    case False
    from 7 [OF False] 8 [OF False] have
      "mainpc (do_run e s) = AwaitSignal \<and> outside (do_run e s) = w1 \<and>
       stop (do_run e s) = ?h \<and> length (loops (do_run e s)) = Suc ?h \<and>
       pc (loops (do_run e s) ! ?h) = Top \<and>
       loop_databases (loops (do_run e s) ! ?h) = databases \<and>
       (\<forall>es t. run_events e es (do_run e s) = Some t \<and> pc (loops t ! ?h) = Collecting \<and> alive t \<longrightarrow>
          loop_databases (loops t ! ?h) = databases \<and>
          (\<exists>t'. step e (LoopStep ?h) t = Some t' \<and> pc (loops t' ! ?h) = Finishing \<and>
                pass_collects e databases (submitCollectedData e) (outside t) (outside t')))"
      by blast
    with 1 2 3 4 5 show ?thesis unfolding if_not_P [OF False] by blast
  qed
qed

theorem failed_target_is_isolated_witness:
  "\<exists>t t'. run_events example_env first_pass init = Some t \<and>
           pc (loops t ! 0) = Collecting \<and>
           step example_env (LoopStep 0) t = Some t' \<and>
           (Err, ''pg2'', ''Error: Failed to connect to database: connection refused'')
             \<in> set (logged (outside (do_run example_env init))) \<and>
           loop_databases (loops t ! 0) =
             [\<lparr>config = target ''pg1'' ''prefer'', connection = Some 1\<rparr>,
              \<lparr>config = target ''pg3'' ''require'', connection = Some 3\<rparr>] \<and>
           collected (outside t') =
             [(target ''pg1'' ''prefer'', Some 1), (target ''pg3'' ''require'', Some 3)] \<and>
           map (\<lambda>l. (fst l, fst (snd l))) (drop (length (logged (outside t))) (logged (outside t'))) =
             [(Err, ''pg1''), (Info, ''pg3'')] \<and>
           (Err, ''pg1'', ''pq: canceling statement due to timeout'') \<in> set (logged (outside t'))"
proof -
  let ?cfgs = "[target ''pg1'' ''prefer'', target ''pg2'' ''disable'', target ''pg3'' ''require'']"
  let ?dbs = "[\<lparr>config = target ''pg1'' ''prefer'', connection = Some 1\<rparr>,
               \<lparr>config = target ''pg3'' ''require'', connection = Some 3\<rparr>]"
  let ?es = "[LoopStep 0, LoopStep 0, LoopStep 0, Tick, Tick, LoopStep 0, LoopStep 0]"
  have a: "mainpc init = AtRun" by (simp add: init_def)
  have "\<not> isl (ReadSchedulerGroups (toml_Decode example_env) (cronexpr_Parse example_env)
                 (DefaultConfig example_env))"
    by (simp add: ReadSchedulerGroups_def example_env_def example_decode_def example_parse_def
        lookup_interval_def stats_group_def)
  then obtain groups where g:
    "ReadSchedulerGroups (toml_Decode example_env) (cronexpr_Parse example_env)
       (DefaultConfig example_env) = Inr groups"
    by (cases "ReadSchedulerGroups (toml_Decode example_env) (cronexpr_Parse example_env)
                 (DefaultConfig example_env)") auto
  have c: "config_Read example_env (length (loops init)) = Inr ?cfgs"
    by (simp add: example_env_def)
  obtain dbs w1 where h: "establish_targets example_env ?cfgs [] (outside init) = (dbs, w1)"
    by (cases "establish_targets example_env ?cfgs [] (outside init)")
  have o: "establish_outcomes example_env ?cfgs (outside init) =
           [(\<lparr>config = target ''pg1'' ''prefer'', connection = Some 1\<rparr>, None),
            (\<lparr>config = target ''pg2'' ''disable'', connection = None\<rparr>, Some (Error ''connection refused'')),
            (\<lparr>config = target ''pg3'' ''require'', connection = Some 3\<rparr>, None)]"
    by (simp add: establishConnection_def example_defs init_def)
  have n: "\<not> effective_testRun example_env"
    by (simp add: effective_testRun_def example_env_def)
  have sub: "submitCollectedData example_env = True"
    by (simp add: submitCollectedData_def example_env_def)
  have l0: "length (loops init) = 0" by (simp add: init_def)
  note t = failed_target_is_isolated [OF a g c h, unfolded o if_not_P [OF n] l0 sub]
  from t have dbs: "dbs = ?dbs" by simp
  from t have m: "step example_env MainStep init = Some (do_run example_env init)" by blast
  from t have w1: "outside (do_run example_env init) = w1" by blast
  from t have pg2: "(Err, ''pg2'', ''Error: Failed to connect to database: connection refused'')
      \<in> set (logged w1)"
    by (simp add: target_def)
  have "run_events example_env first_pass init \<noteq> None" by code_simp
  then obtain t0 where r: "run_events example_env first_pass init = Some t0" by blast
  then have r': "run_events example_env ?es (do_run example_env init) = Some t0"
    by (simp add: first_pass_def startup_def m)
  have "map_option (\<lambda>t. (pc (loops t ! 0), mainpc t, collected (outside t)))
          (run_events example_env first_pass init) = Some (Collecting, AwaitSignal, [])"
    by code_simp
  with r have p: "pc (loops t0 ! 0) = Collecting" and al: "alive t0" and c0: "collected (outside t0) = []"
    by (simp_all add: alive_def)
  have "map_option (\<lambda>t. collect_outcomes example_env ?dbs True (outside t))
          (run_events example_env first_pass init) =
        Some [(\<lparr>config = target ''pg1'' ''prefer'', connection = Some 1\<rparr>,
               Some (Error ''pq: canceling statement due to timeout'')),
              (\<lparr>config = target ''pg3'' ''require'', connection = Some 3\<rparr>, None)]"
    by code_simp
  with r have co: "collect_outcomes example_env ?dbs True (outside t0) =
        [(\<lparr>config = target ''pg1'' ''prefer'', connection = Some 1\<rparr>,
               Some (Error ''pq: canceling statement due to timeout'')),
         (\<lparr>config = target ''pg3'' ''require'', connection = Some 3\<rparr>, None)]"
    by simp
  from t r' p al have
    "loop_databases (loops t0 ! 0) = dbs \<and>
     (\<exists>t'. step example_env (LoopStep 0) t0 = Some t' \<and> pc (loops t' ! 0) = Finishing \<and>
           pass_collects example_env dbs True (outside t0) (outside t'))"
    by blast
  then obtain t' where ld: "loop_databases (loops t0 ! 0) = ?dbs"
    and st: "step example_env (LoopStep 0) t0 = Some t'"
    and pa: "pass_collects example_env ?dbs True (outside t0) (outside t')"
    unfolding dbs by blast
  from pa have k1: "collected (outside t') =
      [(target ''pg1'' ''prefer'', Some 1), (target ''pg3'' ''require'', Some 3)]"
    by (simp add: pass_collects_def c0)
  from pa have k2: "map (\<lambda>l. (fst l, fst (snd l)))
      (drop (length (logged (outside t0))) (logged (outside t'))) = [(Err, ''pg1''), (Info, ''pg3'')]"
    unfolding pass_collects_def co by (simp add: outcome_line_def target_def)
  from pa have "(Err, ''pg1'', ''pq: canceling statement due to timeout'')
      \<in> set (drop (length (logged (outside t0))) (logged (outside t')))"
    unfolding pass_collects_def co by (simp add: failure_logged_def target_def)
  then have k3: "(Err, ''pg1'', ''pq: canceling statement due to timeout'') \<in> set (logged (outside t'))"
    by (rule in_set_dropD)
  from pg2 w1 have k0: "(Err, ''pg2'', ''Error: Failed to connect to database: connection refused'')
      \<in> set (logged (outside (do_run example_env init)))"
    by simp
  show ?thesis
    by (intro exI [of _ t0] exI [of _ t'] conjI) (rule r p st k0 ld k1 k2 k3)+
qed

section \<open>Draining on termination\<close>

lemma main_wg_stays_zero: "run_events e es init = Some s \<Longrightarrow> wgs s ! main_wg = 0"
  using counters_ok_reachable [of e es s] by (simp add: counters_ok_def)

lemma nothing_in_flight_after_stop:
  "run_events e es init = Some s \<Longrightarrow> mainpc s = Waiting \<or> mainpc s = AfterStop sg \<Longrightarrow>
   \<forall>h < length (loops s). pc (loops s ! h) = Done"
  using one_live_reachable [of e es s] by (auto simp: one_live_def quiet_main_def)

text \<open>
  C1. The specification takes the counter that the scheduled task increments to be the
  counter that the shutdown path waits on. It is not: \<open>run\<close> takes \<open>wg\<close> by value, so \<open>runner\<close>
  works on a copy. In the run \<open>first_pass\<close> the pass is in flight, the goroutine holds
  address 1, whose counter is 1, and the counter of \<open>main\<close>, at address 0, is 0. By
  \<open>main_wg_stays_zero\<close> it is 0 in every reachable state, so \<open>wg.Wait()\<close> never
  blocks; by \<open>nothing_in_flight_after_stop\<close> a pass in flight is still waited for,
  because the send on \<open>stop\<close> cannot complete before \<open>runner\<close> has returned.
\<close>

theorem drain_counter_is_a_copy:
  "map_option places (run_events example_env first_pass init) =
     Some (2, AwaitSignal, [Collecting], [1]) \<and>
   map_option counters (run_events example_env first_pass init) = Some ([1], [0, 1], 0)"
  by code_simp

section \<open>A configuration error\<close>

text \<open>
  C2. The specification has the daemon wait for a reload or a termination signal after a
  configuration error, and not exit on its own. The code logs that it is "awaiting
  SIGHUP or process kill", and then \<open>run\<close> returns nil and \<open>main\<close> returns: with an
  unreadable configuration, and with a group whose interval does not exist, the first step
  of \<open>main\<close> ends the process, and a SIGHUP sent afterwards finds no process.
\<close>

theorem config_error_ends_the_process:
  "map_option places (run_events unreadable_env [MainStep] init) = Some (0, Exited, [], []) \<and>
   map_option log_lines (run_events unreadable_env [MainStep] init) =
     Some [(Err, [], ''Error: Could not read configuration, awaiting SIGHUP or process kill'')] \<and>
   run_events unreadable_env [MainStep, Deliver SIGHUP] init = None \<and>
   map_option places (run_events dangling_env [MainStep] init) = Some (0, Exited, [], []) \<and>
   map_option log_lines (run_events dangling_env [MainStep] init) =
     Some [(Err, [], ''Error: Could not read scheduler groups, awaiting SIGHUP or process kill'')] \<and>
   run_events dangling_env [MainStep, Deliver SIGHUP] init = None"
  by code_simp

section \<open>Cancelling a goroutine\<close>

lemma step_keeps_returned_loop:
  assumes "step e ev s = Some s'" "h < length (loops s)" "pc (loops s ! h) = Done"
  shows "h < length (loops s') \<and> loops s' ! h = loops s ! h"
  using assms(1)
proof (cases rule: step_cases)
  case tick
  with assms show ?thesis by (auto simp: tick_def split: option.splits)
next
  case (deliver sg)
  with assms show ?thesis by (auto simp: deliver_def split: if_splits)
next
  case main
  with assms show ?thesis
    by (auto simp: main_step_def do_run_def Let_def nth_append
        split: main_pc.splits option.splits if_splits prod.splits)
next
  case (loop h')
  with assms show ?thesis
    by (auto simp: loop_step_def set_loop_def Let_def nth_list_update
        split: loop_pc.splits option.splits if_splits)
next
  case handoff
  with assms show ?thesis
    by (auto simp: handoff_def send_stop_def set_loop_def nth_list_update in_select_def
        split: main_pc.splits if_splits option.splits)
qed

lemma run_events_keeps_returned_loop:
  "run_events e es s = Some s' \<Longrightarrow> h < length (loops s) \<Longrightarrow> pc (loops s ! h) = Done \<Longrightarrow>
   h < length (loops s') \<and> loops s' ! h = loops s ! h"
proof (induction es arbitrary: s)
  case Nil
  then show ?case by simp
next
  case (Cons ev es)
  from Cons.prems(1) obtain s1 where 1: "step e ev s = Some s1" and 2: "run_events e es s1 = Some s'"
    by (auto split: option.splits)
  from step_keeps_returned_loop [OF 1 Cons.prems(2,3)]
  have a: "h < length (loops s1)" and b: "loops s1 ! h = loops s ! h" by simp_all
  from Cons.IH [OF 2 a] b Cons.prems(3) show ?case by simp
qed

text \<open>
  C6 as stated fails: once the first cancellation has taken effect the goroutine has
  returned, and a second send on its channel cannot complete, so it blocks the caller.
  In the run \<open>cancelled\<close> the goroutine has returned, and a further send on channel 0
  is not possible.
\<close>

theorem second_send_cannot_complete:
  "map_option places (run_events example_env cancelled init) =
     Some (0, AfterStop SIGTERM, [Done], [0]) \<and>
   Option.bind (run_events example_env cancelled init) (send_stop 0) = None"
  by code_simp

text \<open>
  C6, amended. After the cancellation has taken effect, that is once goroutine \<open>h\<close> has
  returned, a further send on its channel cannot complete, now or in any later state: it
  blocks its caller for ever. It never invokes the task: the goroutine stays as it is,
  returned and with the same number of calls of \<open>runner\<close>.
\<close>

theorem second_stop_blocks_forever:
  assumes "h < length (loops s)" and "pc (loops s ! h) = Done"
    and "run_events e es s = Some s'"
  shows "send_stop h s = None \<and> send_stop h s' = None \<and>
         h < length (loops s') \<and> loops s' ! h = loops s ! h"
proof -
  from run_events_keeps_returned_loop [OF assms(3,1,2)]
  have "h < length (loops s')" "loops s' ! h = loops s ! h" by simp_all
  with assms(1,2) show ?thesis by (simp add: send_stop_def in_select_def)
qed

theorem second_stop_blocks_forever_witness:
  "\<exists>s s'. run_events example_env cancelled init = Some s \<and> pc (loops s ! 0) = Done \<and>
           run_events example_env [MainStep, Tick, MainStep] s = Some s' \<and>
           send_stop 0 s = None \<and> send_stop 0 s' = None \<and> pc (loops s' ! 0) = Done"
proof -
  have "run_events example_env (cancelled @ [MainStep, Tick, MainStep]) init \<noteq> None" by code_simp
  then obtain s s' where h: "run_events example_env cancelled init = Some s"
    and h': "run_events example_env [MainStep, Tick, MainStep] s = Some s'"
    by (auto simp: run_events_append split: option.splits)
  have "map_option (\<lambda>s. (length (loops s), pc (loops s ! 0))) (run_events example_env cancelled init) =
        Some (1, Done)"
    by code_simp
  with h have f: "0 < length (loops s)" "pc (loops s ! 0) = Done" by simp_all
  from second_stop_blocks_forever [OF f h'] f h h' show ?thesis by simp
qed

lemma in_send_iff: "in_send p \<longleftrightarrow> (\<exists>sg. p = SendStop sg)"
  by (cases p) (auto simp: in_send_def)

lemma stopping_step:
  assumes "stopping h n due s" "step e ev s = Some s'"
  shows "stopping h n due s'"
proof (cases "pc (loops s ! h) = Done")
  case True
  from assms(1) have h: "h < length (loops s)" by (simp add: stopping_def in_send_iff)
  from step_keeps_returned_loop [OF assms(2) h True] assms(1) True show ?thesis
    by (simp add: stopping_def in_send_iff)
next
  case False
  from assms(2) have al: "alive s" by (auto simp: step_def split: if_splits)
  from assms(1) False al obtain sg where
    h: "h < length (loops s)" and n: "started (loops s ! h) = n" and
    m: "mainpc s = SendStop sg" and st: "stop s = h" and
    p: "pc (loops s ! h) = Select due" and d: "now s < due"
    by (auto simp: stopping_def in_send_iff)
  from assms(2) show ?thesis
  proof (cases rule: step_cases)
    case tick
    with h m st p show ?thesis
      by (auto simp: tick_def handoff_def send_stop_def in_select_def split: option.splits)
  next
    case (deliver sg')
    with h n m st p d show ?thesis
      by (auto simp: deliver_def stopping_def in_send_iff alive_def split: if_splits)
  next
    case main
    with m show ?thesis by (simp add: main_step_def)
  next
    case (loop h')
    show ?thesis
    proof (cases "h' = h")
      case True
      with loop h p d show ?thesis by (simp add: loop_step_def Let_def)
    next
      case other: False
      with loop h n m st p d show ?thesis
        by (auto simp: loop_step_def set_loop_def Let_def stopping_def in_send_iff alive_def
            split: loop_pc.splits option.splits if_splits)
    qed
  next
    case handoff
    with h n m st p show ?thesis
      by (auto simp: handoff_def send_stop_def set_loop_def stopping_def in_send_iff in_select_def)
  qed
qed

text \<open>
  C5 as stated fails: cancellation does not win a tie. In the run \<open>tie\<close> the timer is
  due at instant 2 and \<open>main\<close> reaches its send at instant 2; the goroutine may take
  the timer case and call \<open>runner\<close> while \<open>main\<close> is blocked in the send. In the run
  \<open>late_select\<close> the cancellation is requested at instant 0, before the computed fire
  time 2, while the goroutine is between computing that time and its \<open>select\<close>; it
  enters the \<open>select\<close> at instant 2 with both cases ready, and again may call
  \<open>runner\<close>.
\<close>

theorem timer_can_win_the_tie:
  "map_option places (run_events example_env tie init) =
     Some (2, SendStop SIGTERM, [Select 2], [0]) \<and>
   map_option places (run_events example_env (tie @ [LoopStep 0]) init) =
     Some (2, SendStop SIGTERM, [Fired], [1]) \<and>
   map_option places (run_events example_env [MainStep, LoopStep 0, Deliver SIGTERM, MainStep] init) =
     Some (0, SendStop SIGTERM, [GotNext 2], [0]) \<and>
   map_option places (run_events example_env late_select init) =
     Some (2, SendStop SIGTERM, [Select 2], [0]) \<and>
   map_option places (run_events example_env (late_select @ [LoopStep 0]) init) =
     Some (2, SendStop SIGTERM, [Fired], [1])"
  by code_simp

text \<open>
  C5, amended. If \<open>main\<close> is in its send on the channel of goroutine \<open>h\<close> while that
  goroutine is suspended in its \<open>select\<close> and the clock is strictly before the time the
  timer is due, then the timer case cannot be taken and no time passes, the send
  completes and the goroutine returns, and whatever happens afterwards the task is never
  invoked on that goroutine again: its number of calls of \<open>runner\<close> stays the same and
  it is never inside \<open>runner\<close>. When the timer is due as well, either case may be taken.
\<close>

theorem stop_before_timer_is_due:
  assumes "mainpc s = SendStop sg" and "stop s = h" and "h < length (loops s)"
    and "pc (loops s ! h) = Select due" and "now s < due"
    and "run_events e es s = Some s'"
  shows "step e (LoopStep h) s = None \<and> step e Tick s = None \<and>
         (\<exists>s1. step e Handoff s = Some s1 \<and> pc (loops s1 ! h) = Done) \<and>
         h < length (loops s') \<and> started (loops s' ! h) = started (loops s ! h) \<and>
         \<not> in_runner (pc (loops s' ! h))"
proof -
  have a: "alive s" using assms(1) by (simp add: alive_def)
  have 1: "step e (LoopStep h) s = None"
    using assms(3,4,5) by (simp add: step_def loop_step_def Let_def)
  have 2: "step e Tick s = None"
    using assms(1-4) by (simp add: step_def tick_def handoff_def send_stop_def in_select_def)
  have 3: "\<exists>s1. step e Handoff s = Some s1 \<and> pc (loops s1 ! h) = Done"
    using assms(1-4) a by (simp add: step_def handoff_def send_stop_def in_select_def set_loop_def)
  have "stopping h (started (loops s ! h)) due s"
    using assms(1-5) by (auto simp: stopping_def in_send_iff)
  then have i: "stopping h (started (loops s ! h)) due s'"
    using assms(6) by (rule run_events_invariant [rotated]) (blast intro: stopping_step)
  then have 4: "h < length (loops s') \<and> started (loops s' ! h) = started (loops s ! h)"
    by (simp add: stopping_def in_send_iff)
  have 5: "\<not> in_runner (pc (loops s' ! h))"
    using i by (auto simp: stopping_def in_send_iff in_runner_def)
  from 1 2 3 4 5 show ?thesis by blast
qed

theorem stop_before_timer_is_due_witness:
  "\<exists>s s'. run_events example_env terminate init = Some s \<and>
           mainpc s = SendStop SIGTERM \<and> stop s = 0 \<and> pc (loops s ! 0) = Select 2 \<and> now s < 2 \<and>
           run_events example_env [Handoff, MainStep, MainStep] s = Some s' \<and>
           step example_env Tick s = None \<and> step example_env (LoopStep 0) s = None \<and>
           started (loops s' ! 0) = 0"
proof -
  have "run_events example_env (terminate @ [Handoff, MainStep, MainStep]) init \<noteq> None" by code_simp
  then obtain s s' where h: "run_events example_env terminate init = Some s"
    and h': "run_events example_env [Handoff, MainStep, MainStep] s = Some s'"
    by (auto simp: run_events_append split: option.splits)
  have "map_option (\<lambda>s. (mainpc s, stop s, length (loops s), pc (loops s ! 0), now s, started (loops s ! 0)))
          (run_events example_env terminate init) = Some (SendStop SIGTERM, 0, 1, Select 2, 0, 0)"
    by code_simp
  with h have f: "mainpc s = SendStop SIGTERM" "stop s = 0" "0 < length (loops s)"
    "pc (loops s ! 0) = Select 2" "now s < 2" "started (loops s ! 0) = 0"
    by simp_all
  from stop_before_timer_is_due [OF f(1-5) h'] f h h' show ?thesis by simp
qed

section \<open>Connections of a retired generation\<close>

lemma connections_open_iff:
  "connections_open ds w \<longleftrightarrow>
   (\<forall>d \<in> set ds. \<forall>c. connection d = Some c \<longrightarrow> c \<in> set (opened w))"
  by (auto simp: connections_open_def split: option.splits)

lemma opened_Print [simp]: "opened (Print lv p t w) = opened w"
  by (simp add: Print_def)

lemma opened_connectToDb:
  assumes "connectToDb e cfg lg w = (r, w')"
  shows "set (opened w) \<subseteq> set (opened w') \<and> (\<forall>k. r = Inr k \<longrightarrow> k \<in> set (opened w'))"
  using assms by (auto simp: connectToDb_def Let_def Print_def split: option.splits)

lemma opened_establishConnection:
  assumes "establishConnection e cfg lg w = (d, err, w')"
  shows "set (opened w) \<subseteq> set (opened w') \<and> (\<forall>c. connection d = Some c \<longrightarrow> c \<in> set (opened w'))"
proof -
  define c1 where "c1 = (if DbSslMode cfg = ''prefer'' then cfg\<lparr>DbSslMode := ''require''\<rparr> else cfg)"
  obtain r1 w1 where k1: "connectToDb e c1 lg w = (r1, w1)" by (cases "connectToDb e c1 lg w")
  obtain r2 w2 where k2: "connectToDb e (c1\<lparr>DbSslMode := ''disable''\<rparr>) lg w1 = (r2, w2)"
    by (cases "connectToDb e (c1\<lparr>DbSslMode := ''disable''\<rparr>) lg w1")
  note o1 = opened_connectToDb [OF k1] and o2 = opened_connectToDb [OF k2]
  from assms k1 k2 o1 o2 show ?thesis
    unfolding establishConnection_def Let_def c1_def [symmetric]
    by (cases r1; cases r2) (auto split: if_splits)
qed

lemma connections_open_mono:
  "connections_open ds w \<Longrightarrow> set (opened w) \<subseteq> set (opened w') \<Longrightarrow> connections_open ds w'"
  by (auto simp: connections_open_iff)

lemma opened_establish_targets:
  "establish_targets e cfgs acc w = (ds, w') \<Longrightarrow> connections_open acc w \<Longrightarrow>
   set (opened w) \<subseteq> set (opened w') \<and> connections_open ds w'"
proof (induction cfgs arbitrary: acc w)
  case Nil
  then show ?case by simp
next
  case (Cons cfg cfgs)
  obtain d r w1 where ec: "establishConnection e cfg (SectionName cfg) w = (d, r, w1)"
    by (cases "establishConnection e cfg (SectionName cfg) w")
  note o = opened_establishConnection [OF ec]
  show ?case
  proof (cases r)
    case None
    with Cons.prems(1) have t: "establish_targets e cfgs (acc @ [d]) w1 = (ds, w')" by (simp add: ec)
    have "connections_open (acc @ [d]) w1"
      using Cons.prems(2) o by (auto simp: connections_open_iff)
    from Cons.IH [OF t this] o show ?thesis by auto
  next
    case (Some err)
    let ?w2 = "Print Err (SectionName cfg) (''Error: Failed to connect to database: '' @ message err) w1"
    from Some Cons.prems(1) have t: "establish_targets e cfgs acc ?w2 = (ds, w')" by (simp add: ec)
    have "connections_open acc ?w2"
      using Cons.prems(2) o by (auto simp: connections_open_iff)
    from Cons.IH [OF t this] o show ?thesis by auto
  qed
qed

lemma opened_collectAllDatabases [simp]:
  "opened (collectAllDatabases e ds submit w) = opened w"
proof (induction ds arbitrary: w)
  case Nil
  then show ?case by simp
next
  case (Cons d ds)
  obtain r w2 line where
    1: "collectAllDatabases e (d # ds) submit w = collectAllDatabases e ds submit w2" and
    2: "opened w2 = opened w"
    by (rule collect_first [of e d ds submit w])
  show ?case unfolding 1 Cons.IH 2 by simp
qed

lemma opened_run:
  assumes "run e k w = (r, w')"
  shows "set (opened w) \<subseteq> set (opened w') \<and>
         (\<forall>g ds. r = Some (g, ds) \<longrightarrow> connections_open ds w')"
proof (cases "ReadSchedulerGroups (toml_Decode e) (cronexpr_Parse e) (DefaultConfig e)")
  case (Inl err)
  with assms show ?thesis by (auto simp: run_def)
next
  case (Inr groups)
  show ?thesis
  proof (cases "config_Read e k")
    case (Inl err)
    with assms Inr show ?thesis by (auto simp: run_def)
  next
    case cfgs: (Inr databaseConfigs)
    obtain ds w1 where t: "establish_targets e databaseConfigs [] w = (ds, w1)"
      by (cases "establish_targets e databaseConfigs [] w")
    have "connections_open [] w" by (simp add: connections_open_iff)
    from opened_establish_targets [OF t this] assms Inr cfgs t show ?thesis
      by (auto simp: run_def split: if_splits)
  qed
qed

lemma opened_step:
  assumes "step e ev s = Some s'"
  shows "set (opened (outside s)) \<subseteq> set (opened (outside s'))"
  using assms
proof (cases rule: step_cases)
  case tick
  then show ?thesis by (auto simp: tick_def split: option.splits)
next
  case (deliver sg)
  then show ?thesis by (auto simp: deliver_def split: if_splits)
next
  case main
  obtain r w' where r: "run e (length (loops s)) (outside s) = (r, w')"
    by (cases "run e (length (loops s)) (outside s)")
  from opened_run [OF r] main r show ?thesis
    by (auto simp: main_step_def do_run_def Let_def
        split: main_pc.splits option.splits if_splits)
next
  case (loop h)
  then show ?thesis
    by (auto simp: loop_step_def set_loop_def Let_def
        split: loop_pc.splits option.splits if_splits)
next
  case handoff
  then show ?thesis
    by (auto simp: handoff_def send_stop_def set_loop_def
        split: main_pc.splits if_splits option.splits)
qed

lemma generations_open_step:
  assumes "generations_open s" "step e ev s = Some s'"
  shows "generations_open s'"
  using assms(2)
proof (cases rule: step_cases)
  case tick
  with assms(1) show ?thesis by (auto simp: tick_def generations_open_def split: option.splits)
next
  case (deliver sg)
  with assms(1) show ?thesis by (auto simp: deliver_def generations_open_def split: if_splits)
next
  case main
  obtain r w' where r: "run e (length (loops s)) (outside s) = (r, w')"
    by (cases "run e (length (loops s)) (outside s)")
  note o = opened_run [OF r]
  have old: "connections_open (loop_databases (loops s ! h)) w'" if "h < length (loops s)" for h
    using assms(1) that o connections_open_mono by (auto simp: generations_open_def)
  show ?thesis
  proof (cases "mainpc s = AtRun")
    case True
    with main r o old show ?thesis
      by (auto simp: main_step_def do_run_def Let_def generations_open_def nth_append
          split: option.splits)
  next
    case False
    with main assms(1) show ?thesis
      by (auto simp: main_step_def generations_open_def connections_open_iff
          split: main_pc.splits option.splits if_splits)
  qed
next
  case (loop h)
  with assms(1) show ?thesis
    by (auto simp: loop_step_def set_loop_def Let_def generations_open_def nth_list_update
        connections_open_iff
        split: loop_pc.splits option.splits if_splits)
next
  case handoff
  with assms(1) show ?thesis
    by (auto simp: handoff_def send_stop_def set_loop_def generations_open_def nth_list_update
        split: main_pc.splits if_splits option.splits)
qed

lemma opened_run_events:
  "run_events e es s = Some s' \<Longrightarrow> set (opened (outside s)) \<subseteq> set (opened (outside s'))"
proof (induction es arbitrary: s)
  case Nil
  then show ?case by simp
next
  case (Cons ev es)
  from Cons.prems obtain s1 where 1: "step e ev s = Some s1" and 2: "run_events e es s1 = Some s'"
    by (auto split: option.splits)
  from opened_step [OF 1] Cons.IH [OF 2] show ?case by blast
qed

lemma generations_open_init: "generations_open init"
  by (simp add: generations_open_def init_def)

text \<open>
  C9 as stated fails: nothing in the code closes a connection. After the run \<open>reload\<close>
  the first goroutine has returned and its generation is retired, and its connections 1
  and 3 are still open beside those of the new generation; after a termination the
  process has exited with connections 1 and 3 open.
\<close>

theorem retired_connections_stay_open:
  "map_option places (run_events example_env reload init) = Some (0, AwaitSignal, [Done, Top], [0, 0]) \<and>
   map_option handles (run_events example_env reload init) =
     Some ([[Some 1, Some 3], [Some 5, Some 7]], [0, 1, 2, 3, 4, 5, 6, 7]) \<and>
   map_option places (run_events example_env (cancelled @ [MainStep, MainStep]) init) =
     Some (0, Exited, [Done], [0]) \<and>
   map_option handles (run_events example_env (cancelled @ [MainStep, MainStep]) init) =
     Some ([[Some 1, Some 3]], [0, 1, 2, 3])"
  by code_simp

text \<open>
  C9, amended. No connection is closed when its generation is retired. In every state the
  daemon can reach, every connection of every generation, retired or current, is among
  the open handles, and no later step, reload and exit included, removes a handle from
  them.
\<close>

theorem connections_are_never_closed:
  assumes "run_events e es init = Some s" and "run_events e es' s = Some s'"
  shows "(\<forall>h < length (loops s). \<forall>d \<in> set (loop_databases (loops s ! h)). \<forall>c.
            connection d = Some c \<longrightarrow> c \<in> set (opened (outside s))) \<and>
         set (opened (outside s)) \<subseteq> set (opened (outside s'))"
proof -
  have "generations_open s"
    using generations_open_init assms(1)
    by (rule run_events_invariant [rotated]) (blast intro: generations_open_step)
  then have 1: "\<forall>h < length (loops s). \<forall>d \<in> set (loop_databases (loops s ! h)). \<forall>c.
            connection d = Some c \<longrightarrow> c \<in> set (opened (outside s))"
    by (simp add: generations_open_def connections_open_iff)
  from opened_run_events [OF assms(2)] have "set (opened (outside s)) \<subseteq> set (opened (outside s'))" .
  with 1 show ?thesis by simp
qed

theorem connections_are_never_closed_witness:
  "\<exists>s s'. run_events example_env reload init = Some s \<and>
           run_events example_env [Deliver SIGTERM, MainStep] s = Some s' \<and>
           pc (loops s ! 0) = Done \<and>
           map connection (loop_databases (loops s ! 0)) = [Some 1, Some 3] \<and>
           1 \<in> set (opened (outside s')) \<and> 3 \<in> set (opened (outside s'))"
proof -
  have "run_events example_env (reload @ [Deliver SIGTERM, MainStep]) init \<noteq> None" by code_simp
  then obtain s s' where h: "run_events example_env reload init = Some s"
    and h': "run_events example_env [Deliver SIGTERM, MainStep] s = Some s'"
    by (auto simp: run_events_append split: option.splits)
  have "map_option (\<lambda>s. (length (loops s), pc (loops s ! 0), loop_databases (loops s ! 0)))
          (run_events example_env reload init) =
        Some (2, Done, [\<lparr>config = target ''pg1'' ''prefer'', connection = Some 1\<rparr>,
                        \<lparr>config = target ''pg3'' ''require'', connection = Some 3\<rparr>])"
    by code_simp
  with h have f: "0 < length (loops s)" "pc (loops s ! 0) = Done"
    "loop_databases (loops s ! 0) = [\<lparr>config = target ''pg1'' ''prefer'', connection = Some 1\<rparr>,
                        \<lparr>config = target ''pg3'' ''require'', connection = Some 3\<rparr>]"
    by simp_all
  note t = connections_are_never_closed [OF h h']
  from t f(1) have "\<forall>d \<in> set (loop_databases (loops s ! 0)). \<forall>c.
      connection d = Some c \<longrightarrow> c \<in> set (opened (outside s))"
    by blast
  then have "1 \<in> set (opened (outside s)) \<and> 3 \<in> set (opened (outside s))"
    by (simp add: f(3))
  with t have "1 \<in> set (opened (outside s')) \<and> 3 \<in> set (opened (outside s'))"
    by blast
  with f h h' show ?thesis by simp
qed

end
